theory Spec2Isabelle
  imports Complex_Main "HOL-Library.AList"
begin

section \<open>Python values\<close>

text \<open>
  A Python \<open>float\<close> (a float64) is either not-a-number, one of the two infinities,
  or a finite number. A finite float is represented by the rational number it
  denotes; negative zero is not told apart from zero.
\<close>

datatype pyfloat = FNaN | FPosInf | FNegInf | FFin rat

text \<open>\<open>math.isnan\<close> / \<open>np.isnan\<close> and \<open>math.isinf\<close> / \<open>np.isinf\<close>.\<close>

fun isnan :: "pyfloat \<Rightarrow> bool" where
  "isnan FNaN = True"
| "isnan _ = False"

fun isinf :: "pyfloat \<Rightarrow> bool" where
  "isinf FPosInf = True"
| "isinf FNegInf = True"
| "isinf _ = False"

text \<open>The comparison \<open>obj > 0\<close> on a float; every comparison with NaN is false.\<close>

fun float_gt_zero :: "pyfloat \<Rightarrow> bool" where
  "float_gt_zero FNaN = False"
| "float_gt_zero FPosInf = True"
| "float_gt_zero FNegInf = False"
| "float_gt_zero (FFin q) = (0 < q)"

subsection \<open>Float64 arithmetic\<close>

text \<open>
  \<open>pow2 e\<close> is \<open>2\<close> to the power \<open>e\<close>; \<open>round_half_even\<close> rounds to the nearest integer,
  a tie to the even one; \<open>bit_length\<close> is the number of binary digits of a positive
  integer; \<open>binade q\<close>, for \<open>q > 0\<close>, is the exponent \<open>e\<close> with
  \<open>2^e <= q < 2^(e+1)\<close>.
\<close>

definition pow2 :: "int \<Rightarrow> rat" where
  "pow2 e = (if 0 \<le> e then 2 ^ nat e else 1 / 2 ^ nat (- e))"

definition round_half_even :: "rat \<Rightarrow> int" where
  "round_half_even q =
     (let f = \<lfloor>q\<rfloor>; d = q - of_int f
      in if d < 1 / 2 then f else if 1 / 2 < d then f + 1 else if even f then f else f + 1)"

function bit_length :: "int \<Rightarrow> int" where
  "bit_length n = (if n \<le> 0 then 0 else 1 + bit_length (n div 2))"
  by pat_completeness auto
termination
  by (relation "measure (\<lambda>n. nat n)") auto

definition binade :: "rat \<Rightarrow> int" where
  "binade q =
     (let k = bit_length (fst (quotient_of q)) - bit_length (snd (quotient_of q))
      in if pow2 k \<le> q then k else k - 1)"

text \<open>
  \<open>f64 q\<close> is the float64 that the number \<open>q\<close> rounds to: the nearest multiple of the
  spacing of the floats around \<open>q\<close> (53 significant bits, the spacing never below
  \<open>2^-1074\<close>), a tie going to the even multiple, and an infinity when the rounded
  value reaches \<open>2^1024\<close>.
\<close>

definition f64 :: "rat \<Rightarrow> pyfloat" where
  "f64 q =
     (if q = 0 then FFin 0
      else
        let a = \<bar>q\<bar>;
            qe = max (binade a - 52) (- 1074);
            r = of_int (round_half_even (a / pow2 qe)) * pow2 qe
        in if 1024 \<le> binade r then (if 0 < q then FPosInf else FNegInf)
           else FFin (if 0 < q then r else - r))"

text \<open>Division and multiplication of two floats, the exact result rounded by \<open>f64\<close>.\<close>

definition f64_div :: "pyfloat \<Rightarrow> pyfloat \<Rightarrow> pyfloat" where
  "f64_div x y =
     (case (x, y) of
        (FFin p, FFin q) \<Rightarrow>
          (if q = 0 then (if p = 0 then FNaN else if 0 < p then FPosInf else FNegInf)
           else f64 (p / q))
      | (FFin p, FPosInf) \<Rightarrow> FFin 0
      | (FFin p, FNegInf) \<Rightarrow> FFin 0
      | (FPosInf, FFin q) \<Rightarrow> (if 0 \<le> q then FPosInf else FNegInf)
      | (FNegInf, FFin q) \<Rightarrow> (if 0 \<le> q then FNegInf else FPosInf)
      | _ \<Rightarrow> FNaN)"

definition f64_mul :: "pyfloat \<Rightarrow> pyfloat \<Rightarrow> pyfloat" where
  "f64_mul x y =
     (case (x, y) of
        (FFin p, FFin q) \<Rightarrow> f64 (p * q)
      | (FFin p, FPosInf) \<Rightarrow> (if p = 0 then FNaN else if 0 < p then FPosInf else FNegInf)
      | (FFin p, FNegInf) \<Rightarrow> (if p = 0 then FNaN else if 0 < p then FNegInf else FPosInf)
      | (FPosInf, FFin q) \<Rightarrow> (if q = 0 then FNaN else if 0 < q then FPosInf else FNegInf)
      | (FNegInf, FFin q) \<Rightarrow> (if q = 0 then FNaN else if 0 < q then FNegInf else FPosInf)
      | (FPosInf, FPosInf) \<Rightarrow> FPosInf
      | (FNegInf, FNegInf) \<Rightarrow> FPosInf
      | (FPosInf, FNegInf) \<Rightarrow> FNegInf
      | (FNegInf, FPosInf) \<Rightarrow> FNegInf
      | _ \<Rightarrow> FNaN)"

subsection \<open>Exceptions and values\<close>

text \<open>An exception of class \<open>Exception\<close> (or of a subclass), with its message \<open>str(e)\<close>.\<close>

datatype exn = Exception string


text \<open>
  The values \<open>clean_for_json\<close> distinguishes by \<open>isinstance\<close>. Dictionary keys are
  never inspected by the function; they are strings here, as in every report the
  program builds. \<open>np.float64\<close> is a subclass of \<open>float\<close>, the other numpy floating
  types (\<open>float16\<close>, \<open>float32\<close>, \<open>longdouble\<close>) are not, so the two are kept apart.
  \<open>NpArray t\<close> is an \<open>np.ndarray\<close> whose \<open>tolist()\<close> is \<open>t\<close>. \<open>PObject n s\<close> is a
  value of any other type, with type name \<open>n\<close> and display string \<open>str(obj) = s\<close>.
\<close>

datatype pyval =
    PNone
  | PBool bool
  | PInt int
  | PFloat pyfloat
  | PStr string
  | PList "pyval list"
  | PDict "(string \<times> pyval) list"
  | NpInteger int
  | NpFloat64 pyfloat
  | NpFloating pyfloat
  | NpArray pyval
  | PObject string string

section \<open>The value normalizer\<close>

text \<open>
  The body shared by the \<open>float\<close> branch and the \<open>np.floating\<close> branch of
  \<open>clean_for_json\<close>: NaN and the infinities become strings, a finite value is
  returned as \<open>keep\<close> (the object itself, or \<open>float(obj)\<close>).
\<close>

definition clean_float :: "pyfloat \<Rightarrow> pyval \<Rightarrow> pyval" where
  "clean_float f keep =
     (if isnan f then PStr ''NaN''
      else if isinf f then (if float_gt_zero f then PStr ''Infinity'' else PStr ''-Infinity'')
      else keep)"

text \<open>
  \<open>clean_for_json\<close>, branch by branch in the order of the source. A \<open>bool\<close> is an
  \<open>int\<close> and a \<open>np.float64\<close> is a \<open>float\<close> in Python, so \<open>NpFloat64\<close> is taken by
  the \<open>float\<close> branch and returned unchanged when finite.
\<close>

fun clean_for_json :: "pyval \<Rightarrow> pyval" where
  "clean_for_json (PDict kvs) = PDict (map (\<lambda>kv. (fst kv, clean_for_json (snd kv))) kvs)"
| "clean_for_json (PList xs) = PList (map clean_for_json xs)"
| "clean_for_json (PFloat f) = clean_float f (PFloat f)"
| "clean_for_json (NpFloat64 f) = clean_float f (NpFloat64 f)"
| "clean_for_json (PInt i) = PInt i"
| "clean_for_json (PStr s) = PStr s"
| "clean_for_json (PBool b) = PBool b"
| "clean_for_json PNone = PNone"
| "clean_for_json (NpInteger i) = PInt i"
| "clean_for_json (NpFloating f) = clean_float f (PFloat f)"
| "clean_for_json (NpArray t) = clean_for_json t"
| "clean_for_json (PObject n s) = PStr s"

text \<open>
  Positions in a value tree: a path is a list of indices, each selecting an item of a
  list or the value of the i-th item of a dictionary. An array stands for the list
  its \<open>tolist()\<close> gives.
\<close>

fun nth_opt :: "'a list \<Rightarrow> nat \<Rightarrow> 'a option" where
  "nth_opt [] i = None"
| "nth_opt (x # xs) 0 = Some x"
| "nth_opt (x # xs) (Suc i) = nth_opt xs i"

fun subval :: "pyval \<Rightarrow> nat list \<Rightarrow> pyval option" where
  "subval (NpArray t) p = subval t p"
| "subval v [] = Some v"
| "subval (PList xs) (i # p) = (case nth_opt xs i of None \<Rightarrow> None | Some x \<Rightarrow> subval x p)"
| "subval (PDict kvs) (i # p) = (case nth_opt kvs i of None \<Rightarrow> None | Some kv \<Rightarrow> subval (snd kv) p)"
| "subval v (i # p) = None"

text \<open>The floating value of a plain or numpy float; \<open>None\<close> for every other value.\<close>

fun float_of :: "pyval \<Rightarrow> pyfloat option" where
  "float_of (PFloat f) = Some f"
| "float_of (NpFloat64 f) = Some f"
| "float_of (NpFloating f) = Some f"
| "float_of _ = None"

fun sentinel :: "pyfloat \<Rightarrow> string" where
  "sentinel FNaN = ''NaN''"
| "sentinel FPosInf = ''Infinity''"
| "sentinel FNegInf = ''-Infinity''"
| "sentinel (FFin q) = []"

definition finite_float :: "pyfloat \<Rightarrow> bool" where
  "finite_float f = (\<not> isnan f \<and> \<not> isinf f)"


subsection \<open>The call as the interpreter runs it\<close>





section \<open>Datasets\<close>

text \<open>
  A cell of a \<open>DataFrame\<close>: a boolean, an integer, a float, a string, or a scalar of
  any other type (\<open>CObject n s\<close>, with type name \<open>n\<close> and display string \<open>s\<close>). A
  missing cell is the float NaN, as \<open>read_csv\<close> and \<open>read_excel\<close> produce it. Two types
  are taken to be the same type when their names agree, and two objects of another
  type to be equal when type and display string agree.
\<close>

datatype cell = CBool bool | CInt int | CFloat pyfloat | CStr string | CObject string string

text \<open>
  A \<open>DataFrame\<close> with the default index \<open>0, 1, ..., len(df) - 1\<close>: the columns in
  order, each with its name and its cells, and the number of rows \<open>len(df)\<close>.
\<close>

record dataframe =
  col_data :: "(string \<times> cell list) list"
  nrows :: nat

definition columns :: "dataframe \<Rightarrow> string list" where
  "columns df = map fst (col_data df)"

text \<open>
  Column names are distinct, every column has one cell per row, and a dataset
  without columns has no rows.
\<close>

definition wf_df :: "dataframe \<Rightarrow> bool" where
  "wf_df df =
     (distinct (columns df)
      \<and> list_all (\<lambda>cs. length cs = nrows df) (map snd (col_data df))
      \<and> (col_data df = [] \<longrightarrow> nrows df = 0))"

text \<open>
  Row \<open>i\<close> with its cells as the columns hold them: column name and cell, in column
  order. \<open>frame_rows\<close> are all rows so.
\<close>

type_synonym row = "(string \<times> cell) list"

definition row_at :: "dataframe \<Rightarrow> nat \<Rightarrow> row" where
  "row_at df i = map (\<lambda>(c, cs). (c, cs ! i)) (col_data df)"

definition frame_rows :: "dataframe \<Rightarrow> row list" where
  "frame_rows df = map (row_at df) [0..<nrows df]"

text \<open>
  The dtype of a column is the one pandas infers from its cells: \<open>int64\<close> when all
  are integers, \<open>float64\<close> when all are floats, \<open>bool\<close> when all are booleans, and
  \<open>object\<close> otherwise. \<open>iterrows\<close> and \<open>apply(axis=1)\<close> hand a row over as a \<open>Series\<close> of
  the common dtype of the columns: \<open>float64\<close> when the columns are \<open>int64\<close> and
  \<open>float64\<close>, so that an integer arrives as a float, and \<open>object\<close>, with every cell as
  it is, as soon as one column is \<open>object\<close> or booleans stand beside numbers.
\<close>

datatype dtype = DBool | DInt | DFloat | DObject

definition col_dtype :: "cell list \<Rightarrow> dtype" where
  "col_dtype cs =
     (if list_all (\<lambda>c. case c of CInt i \<Rightarrow> True | _ \<Rightarrow> False) cs then DInt
      else if list_all (\<lambda>c. case c of CFloat f \<Rightarrow> True | _ \<Rightarrow> False) cs then DFloat
      else if list_all (\<lambda>c. case c of CBool b \<Rightarrow> True | _ \<Rightarrow> False) cs then DBool
      else DObject)"

definition frame_dtype :: "dataframe \<Rightarrow> dtype" where
  "frame_dtype df =
     (let ds = map (\<lambda>(c, cs). col_dtype cs) (col_data df) in
      if list_all (\<lambda>d. d = DInt) ds then DInt
      else if list_all (\<lambda>d. d = DInt \<or> d = DFloat) ds then DFloat
      else if list_all (\<lambda>d. d = DBool) ds then DBool
      else DObject)"

fun upcast :: "dtype \<Rightarrow> cell \<Rightarrow> cell" where
  "upcast DFloat (CInt i) = CFloat (f64 (of_int i))"
| "upcast d c = c"

definition row_series :: "dataframe \<Rightarrow> nat \<Rightarrow> row" where
  "row_series df i = map (\<lambda>(c, v). (c, upcast (frame_dtype df) v)) (row_at df i)"

definition iterrows :: "dataframe \<Rightarrow> row list" where
  "iterrows df = map (row_series df) [0..<nrows df]"

text \<open>
  A function that returns either its result or the string \<open>"None"\<close> returns
  \<open>Report r\<close> or \<open>NoneStr\<close>.
\<close>

datatype 'a or_none = NoneStr | Report 'a

text \<open>
  Boolean masks: \<open>mask.sum()\<close>, \<open>mask.any()\<close>, the positions
  \<open>mask.to_numpy().nonzero()[0].tolist()\<close>, and the selection \<open>df.loc[mask]\<close>.
\<close>

definition mask_sum :: "bool list \<Rightarrow> nat" where
  "mask_sum msk = length (filter (\<lambda>b. b) msk)"

definition mask_any :: "bool list \<Rightarrow> bool" where
  "mask_any msk = list_ex (\<lambda>b. b) msk"

definition nonzero :: "bool list \<Rightarrow> nat list" where
  "nonzero msk = filter (\<lambda>i. msk ! i) [0..<length msk]"

definition select :: "bool list \<Rightarrow> 'a list \<Rightarrow> 'a list" where
  "select msk xs = map snd (filter fst (zip msk xs))"

text \<open>
  \<open>df[mask]\<close>: the rows at the positions where the mask is \<open>True\<close>, each with its index
  label and with its cells as the columns hold them.
\<close>

definition df_select :: "dataframe \<Rightarrow> bool list \<Rightarrow> (nat \<times> row) list" where
  "df_select df msk = map (\<lambda>i. (i, row_at df i)) (nonzero msk)"

text \<open>\<open>isnull\<close> / \<open>isna\<close>: NaN is missing; an infinity or an empty string is not.\<close>

fun isnull :: "cell \<Rightarrow> bool" where
  "isnull (CFloat f) = isnan f"
| "isnull _ = False"

section \<open>Missing values\<close>

record missing_entry =
  Column :: string
  Missing_Count :: nat
  Missing_Percentage :: pyfloat

text \<open>
  \<open>(Missing_Count / len(df)) * 100\<close>: the count and the length are converted to
  floats and divided, and the quotient is multiplied by \<open>100.0\<close>; each of the two
  operations rounds its result.
\<close>

definition missing_percentage :: "nat \<Rightarrow> nat \<Rightarrow> pyfloat" where
  "missing_percentage c n = f64_mul (f64_div (f64 (of_nat c)) (f64 (of_nat n))) (f64 100)"

definition missing_report :: "dataframe \<Rightarrow> missing_entry list" where
  "missing_report df =
     map (\<lambda>(c, cs). \<lparr>Column = c, Missing_Count = length (filter isnull cs),
            Missing_Percentage = missing_percentage (length (filter isnull cs)) (nrows df)\<rparr>)
         (col_data df)"

definition detect_missing_values :: "dataframe \<Rightarrow> missing_entry list or_none" where
  "detect_missing_values df =
     (let flagged = filter (\<lambda>r. Missing_Count r > 0) (missing_report df)
      in if flagged = [] then NoneStr else Report flagged)"

section \<open>Data type mismatches\<close>

text \<open>\<open>type(v).__name__\<close> of a cell.\<close>

fun type_name :: "cell \<Rightarrow> string" where
  "type_name (CBool b) = ''bool''"
| "type_name (CInt i) = ''int''"
| "type_name (CFloat f) = ''float''"
| "type_name (CStr s) = ''str''"
| "type_name (CObject n s) = n"

text \<open>\<open>df.loc[non_null_mask, col].map(type)\<close>: row index and type of every non-null cell.\<close>

definition type_series :: "cell list \<Rightarrow> (nat \<times> string) list" where
  "type_series cs = map (\<lambda>(i, c). (i, type_name c)) (filter (\<lambda>(i, c). \<not> isnull c) (enumerate 0 cs))"

text \<open>
  \<open>Series.value_counts()\<close>: the distinct values with their counts are collected in
  order of first occurrence (\<open>tally\<close>) and then sorted by decreasing count; values
  with the same count keep the order of their first occurrence.
\<close>

fun tally :: "'a list \<Rightarrow> ('a \<times> nat) list \<Rightarrow> ('a \<times> nat) list" where
  "tally [] acc = acc"
| "tally (x # xs) acc =
     tally xs (AList.update x (case map_of acc x of None \<Rightarrow> 1 | Some n \<Rightarrow> Suc n) acc)"

definition value_counts :: "'a list \<Rightarrow> ('a \<times> nat) list" where
  "value_counts xs = sort_key (\<lambda>p. - int (snd p)) (tally xs [])"

record type_profile =
  dominant_type :: string
  type_counts :: "(string \<times> nat) list"
  mixed_indices :: "(string \<times> nat list) list"

text \<open>
  The loop over \<open>type_series.items()\<close>: \<open>mixed_indices\<close> is a \<open>defaultdict(list)\<close>, so a
  type seen for the first time starts from the empty list.
\<close>

fun mixed_loop :: "string \<Rightarrow> (nat \<times> string) list \<Rightarrow> (string \<times> nat list) list \<Rightarrow> (string \<times> nat list) list" where
  "mixed_loop dominant [] acc = acc"
| "mixed_loop dominant ((idx, val_type) # rest) acc =
     (if val_type \<noteq> dominant
      then mixed_loop dominant rest
             (AList.update val_type
                ((case map_of acc val_type of None \<Rightarrow> [] | Some is \<Rightarrow> is) @ [idx]) acc)
      else mixed_loop dominant rest acc)"

text \<open>The body of the loop over the columns: \<open>None\<close> when the column adds no entry.\<close>

definition profile_column :: "cell list \<Rightarrow> type_profile option" where
  "profile_column cs =
     (let ts = type_series cs in
      if ts = [] then None
      else
        let counts = value_counts (map snd ts) in
        if length counts > 1
        then let dominant = fst (hd counts)
             in Some \<lparr>dominant_type = dominant, type_counts = counts,
                      mixed_indices = mixed_loop dominant ts []\<rparr>
        else None)"

definition detect_data_type_mismatches :: "dataframe \<Rightarrow> (string \<times> type_profile) list" where
  "detect_data_type_mismatches df =
     fold (\<lambda>(col, cs) mismatches.
             case profile_column cs of None \<Rightarrow> mismatches
             | Some p \<Rightarrow> AList.update col p mismatches)
          (col_data df) []"

section \<open>Duplicate rows\<close>

text \<open>
  \<open>DataFrame.duplicated()\<close> compares rows by the labels \<open>factorize\<close> gives the cells of
  each column: all missing cells of a column get the same label, numbers are
  compared by value (so \<open>1\<close>, \<open>1.0\<close> and \<open>True\<close> are the same), strings by their text.
\<close>

datatype cell_label = LNa | LNum pyfloat | LStr string | LObj string string

fun factorize :: "cell \<Rightarrow> cell_label" where
  "factorize (CFloat f) = (if isnan f then LNa else LNum f)"
| "factorize (CBool b) = LNum (FFin (if b then 1 else 0))"
| "factorize (CInt i) = LNum (FFin (of_int i))"
| "factorize (CStr s) = LStr s"
| "factorize (CObject n s) = LObj n s"

definition row_labels :: "row \<Rightarrow> cell_label list" where
  "row_labels r = map (\<lambda>(c, v). factorize v) r"

text \<open>
  With \<open>keep='first'\<close> the rows are visited in order; a row whose labels are in the
  table is marked, any other row is entered into the table. For an empty frame (no
  columns or no rows) \<open>duplicated\<close> returns an empty mask at once.
\<close>

fun duplicated_loop :: "'a list \<Rightarrow> 'a list \<Rightarrow> bool list" where
  "duplicated_loop seen [] = []"
| "duplicated_loop seen (k # ks) =
     (if k \<in> set seen then True # duplicated_loop seen ks
      else False # duplicated_loop (k # seen) ks)"

definition duplicated :: "dataframe \<Rightarrow> bool list" where
  "duplicated df =
     (if col_data df = [] \<or> nrows df = 0 then []
      else duplicated_loop [] (map row_labels (frame_rows df)))"

record flagged =
  count :: nat
  indices :: "nat list"

definition detect_duplicates :: "dataframe \<Rightarrow> flagged" where
  "detect_duplicates df =
     (let duplicate_count = mask_sum (duplicated df);
          duplicate_indices = nonzero (duplicated df)
      in \<lparr>count = duplicate_count,
          indices = (if duplicate_count > 0 then duplicate_indices else [])\<rparr>)"

section \<open>Invalid inputs\<close>

text \<open>
  Matching a pattern against a string is done by Python's \<open>re\<close> module. The functions
  of this section take the matcher as a parameter, so they are about every pattern
  of Python. For examples, a fragment of the pattern language is defined here with
  its two matchers: the empty pattern, single characters, the dot, character sets,
  sequence, alternative and repetition. Anchors, groups, look-around and
  back-references are not in the fragment. \<open>Nomatch\<close> matches nothing; it is what is
  left of a pattern after a character it cannot read.
\<close>

datatype regex =
    Nomatch
  | Eps
  | Chr char
  | Dot
  | Cls "char list"
  | Seq regex regex
  | Alt regex regex
  | Star regex

fun nullable :: "regex \<Rightarrow> bool" where
  "nullable Nomatch = False"
| "nullable Eps = True"
| "nullable (Chr c) = False"
| "nullable Dot = False"
| "nullable (Cls cs) = False"
| "nullable (Seq r s) = (nullable r \<and> nullable s)"
| "nullable (Alt r s) = (nullable r \<or> nullable s)"
| "nullable (Star r) = True"

text \<open>What is left of a pattern after reading one character; the dot reads any character but a newline.\<close>

fun deriv :: "char \<Rightarrow> regex \<Rightarrow> regex" where
  "deriv a Nomatch = Nomatch"
| "deriv a Eps = Nomatch"
| "deriv a (Chr c) = (if a = c then Eps else Nomatch)"
| "deriv a Dot = (if a = CHR 0x0A then Nomatch else Eps)"
| "deriv a (Cls cs) = (if a \<in> set cs then Eps else Nomatch)"
| "deriv a (Seq r s) =
     (if nullable r then Alt (Seq (deriv a r) s) (deriv a s) else Seq (deriv a r) s)"
| "deriv a (Alt r s) = Alt (deriv a r) (deriv a s)"
| "deriv a (Star r) = Seq (deriv a r) (Star r)"


text \<open>
  \<open>re.match\<close>: zero or more characters at the beginning of the string match the
  pattern.
\<close>

fun re_match :: "regex \<Rightarrow> string \<Rightarrow> bool" where
  "re_match r [] = nullable r"
| "re_match r (a # as) = (nullable r \<or> re_match (deriv a r) as)"

text \<open>\<open>str\<close> of an integer.\<close>

function str_nat :: "nat \<Rightarrow> string" where
  "str_nat n = (if n < 10 then [''0123456789'' ! n] else str_nat (n div 10) @ [''0123456789'' ! (n mod 10)])"
  by pat_completeness auto
termination
  by (relation "measure (\<lambda>n. n)") auto

definition str_int :: "int \<Rightarrow> string" where
  "str_int i = (if i < 0 then CHR ''-'' # str_nat (nat (- i)) else str_nat (nat i))"

text \<open>
  \<open>astype(str)\<close> on a cell. The display string of a finite float (its shortest
  decimal form that reads back as the same float) is not computed here: it is the
  parameter \<open>frepr\<close>.
\<close>

fun astype_str :: "(rat \<Rightarrow> string) \<Rightarrow> cell \<Rightarrow> string" where
  "astype_str frepr (CBool b) = (if b then ''True'' else ''False'')"
| "astype_str frepr (CInt i) = str_int i"
| "astype_str frepr (CFloat FNaN) = ''nan''"
| "astype_str frepr (CFloat FPosInf) = ''inf''"
| "astype_str frepr (CFloat FNegInf) = ''-inf''"
| "astype_str frepr (CFloat (FFin q)) = frepr q"
| "astype_str frepr (CStr s) = s"
| "astype_str frepr (CObject n s) = s"

text \<open>
  The conversion applied to reported values and rows: a float that is NaN or
  infinite is replaced by \<open>str(val)\<close>, every other value is kept.
\<close>

fun str_nonfinite :: "cell \<Rightarrow> cell" where
  "str_nonfinite (CFloat FNaN) = CStr ''nan''"
| "str_nonfinite (CFloat FPosInf) = CStr ''inf''"
| "str_nonfinite (CFloat FNegInf) = CStr ''-inf''"
| "str_nonfinite c = c"

record invalid_entry = flagged +
  "values" :: "cell list"

text \<open>
  \<open>~df[col].astype(str).str.match(rule, na=False)\<close>. \<open>Series.str.match\<close> applies
  \<open>re.match\<close> to every string; \<open>str_match rule s\<close> says whether \<open>re.match(rule, s)\<close>
  finds a match.
\<close>

definition invalid_mask :: "('p \<Rightarrow> string \<Rightarrow> bool) \<Rightarrow> (rat \<Rightarrow> string) \<Rightarrow> 'p \<Rightarrow> cell list \<Rightarrow> bool list" where
  "invalid_mask str_match frepr rule cs = map (\<lambda>c. \<not> str_match rule (astype_str frepr c)) cs"

text \<open>The body of the loop over the rules in \<open>backend.py\<close>, for a column of the dataset.\<close>

definition check_column ::
  "('p \<Rightarrow> string \<Rightarrow> bool) \<Rightarrow> (rat \<Rightarrow> string) \<Rightarrow> 'p \<Rightarrow> cell list \<Rightarrow> invalid_entry option" where
  "check_column str_match frepr rule cs =
     (let msk = invalid_mask str_match frepr rule cs in
      if mask_any msk
      then Some \<lparr>count = mask_sum msk, indices = nonzero msk,
                 values = map str_nonfinite (select msk cs)\<rparr>
      else None)"

definition detect_invalid_inputs ::
  "('p \<Rightarrow> string \<Rightarrow> bool) \<Rightarrow> (rat \<Rightarrow> string) \<Rightarrow> dataframe \<Rightarrow> (string \<times> 'p) list
     \<Rightarrow> (string \<times> invalid_entry) list or_none" where
  "detect_invalid_inputs str_match frepr df rules =
     (let invalid_entries =
            fold (\<lambda>(col, rule) entries.
                    case map_of (col_data df) col of None \<Rightarrow> entries
                    | Some cs \<Rightarrow>
                        (case check_column str_match frepr rule cs of None \<Rightarrow> entries
                         | Some e \<Rightarrow> AList.update col e entries))
                 rules []
      in if invalid_entries = [] then NoneStr else Report invalid_entries)"


section \<open>Consistency rules\<close>

text \<open>
  A rule is a function of a row that returns a boolean or raises an exception, which
  \<open>except Exception as e\<close> catches.
\<close>

type_synonym rule_func = "row \<Rightarrow> exn + bool"

text \<open>
  \<open>df.apply(lambda row: rule_func(row), axis=1)\<close>: the rule is called on the rows in
  order; the first exception ends the evaluation. (For a frame without rows pandas
  does not call the rule on rows at all; what \<open>check_consistency\<close> then reports for a
  rule is not part of this model.)
\<close>

fun df_apply :: "rule_func \<Rightarrow> row list \<Rightarrow> exn + bool list" where
  "df_apply f [] = Inr []"
| "df_apply f (r # rs) =
     (case f r of Inl e \<Rightarrow> Inl e
      | Inr b \<Rightarrow> (case df_apply f rs of Inl e \<Rightarrow> Inl e | Inr bs \<Rightarrow> Inr (b # bs)))"

record failure = flagged +
  rows :: "row list"

datatype rule_report = Failed failure | RuleError (error: string) (message: string)

definition clean_row :: "row \<Rightarrow> row" where
  "clean_row r = map (\<lambda>(key, val). (key, str_nonfinite val)) r"

text \<open>The body of the loop over the rules: \<open>None\<close> when the rule adds no entry.\<close>

definition check_rule :: "dataframe \<Rightarrow> string \<Rightarrow> rule_func \<Rightarrow> rule_report option" where
  "check_rule df rule_name rule_func =
     (case df_apply rule_func (iterrows df) of
        Inl (Exception msg) \<Rightarrow>
          Some (RuleError msg (''Error checking rule: '' @ rule_name))
      | Inr passed \<Rightarrow>
          (let failed_mask = map Not passed in
           if mask_any failed_mask
           then Some (Failed \<lparr>count = mask_sum failed_mask, indices = nonzero failed_mask,
                               rows = map clean_row (select failed_mask (iterrows df))\<rparr>)
           else None))"

definition check_consistency ::
  "dataframe \<Rightarrow> (string \<times> rule_func) list \<Rightarrow> (string \<times> rule_report) list or_none" where
  "check_consistency df consistency_rules =
     (let inconsistencies =
            fold (\<lambda>(rule_name, rule_func) entries.
                    case check_rule df rule_name rule_func of None \<Rightarrow> entries
                    | Some e \<Rightarrow> AList.update rule_name e entries)
                 consistency_rules []
      in if inconsistencies = [] then NoneStr else Report inconsistencies)"

text \<open>
  \<open>check_consistency\<close> of \<open>dq.py\<close>: the same evaluation of a rule, without
  \<open>try\<close> and \<open>except\<close>, so that an exception raised by a rule ends the whole call. The
  entry for a rule is the frame of its failing rows, added when that frame is not
  empty.
\<close>

fun dq_check_loop ::
  "dataframe \<Rightarrow> (string \<times> rule_func) list \<Rightarrow> (string \<times> (nat \<times> row) list) list
     \<Rightarrow> exn + (string \<times> (nat \<times> row) list) list" where
  "dq_check_loop df [] entries = Inr entries"
| "dq_check_loop df ((rule_name, rule_func) # rest) entries =
     (case df_apply rule_func (iterrows df) of
        Inl e \<Rightarrow> Inl e
      | Inr passed \<Rightarrow>
          (let failed_rows = df_select df (map Not passed) in
           dq_check_loop df rest
             (if failed_rows = [] \<or> col_data df = [] then entries
              else AList.update rule_name failed_rows entries)))"

definition dq_check_consistency ::
  "dataframe \<Rightarrow> (string \<times> rule_func) list \<Rightarrow> exn + (string \<times> (nat \<times> row) list) list" where
  "dq_check_consistency df consistency_rules = dq_check_loop df consistency_rules []"

subsection \<open>The default rules\<close>

text \<open>
  \<open>pd.to_numeric(v, errors="coerce")\<close> on a cell, as the number it denotes: a number
  is returned as it is, a string is parsed, and whatever cannot be read as a number
  becomes NaN. Reading a number from a string is the parameter \<open>parse\<close>.
\<close>

fun to_numeric :: "(string \<Rightarrow> pyfloat option) \<Rightarrow> cell \<Rightarrow> pyfloat" where
  "to_numeric parse (CInt i) = FFin (of_int i)"
| "to_numeric parse (CFloat f) = f"
| "to_numeric parse (CBool b) = FFin (if b then 1 else 0)"
| "to_numeric parse (CStr s) = (case parse s of None \<Rightarrow> FNaN | Some v \<Rightarrow> v)"
| "to_numeric parse (CObject n s) = FNaN"

text \<open>\<open>x <= y\<close> on numbers: false whenever one side is NaN.\<close>

fun float_le :: "pyfloat \<Rightarrow> pyfloat \<Rightarrow> bool" where
  "float_le FNaN y = False"
| "float_le x FNaN = False"
| "float_le FNegInf y = True"
| "float_le x FPosInf = True"
| "float_le FPosInf y = False"
| "float_le x FNegInf = False"
| "float_le (FFin p) (FFin q) = (p \<le> q)"

definition valid_age :: "(string \<Rightarrow> pyfloat option) \<Rightarrow> rule_func" where
  "valid_age parse r =
     (case map_of r ''Age'' of
        Some v \<Rightarrow> Inr (float_le (FFin 0) (to_numeric parse v) \<and> float_le (to_numeric parse v) (FFin 120))
      | None \<Rightarrow> Inr True)"

definition salary_non_negative :: "(string \<Rightarrow> pyfloat option) \<Rightarrow> rule_func" where
  "salary_non_negative parse r =
     (case map_of r ''Salary'' of
        Some v \<Rightarrow> Inr (float_le (FFin 0) (to_numeric parse v))
      | None \<Rightarrow> Inr True)"

definition string_in_set :: rule_func where
  "string_in_set r =
     (case map_of r ''string'' of
        Some v \<Rightarrow> Inr (v \<in> set (map CStr [''apple'', ''banana'', ''cherry'', ''date'', ''elderberry'']))
      | None \<Rightarrow> Inr True)"

text \<open>The rules \<open>run_data_quality_checks\<close> passes to \<open>check_consistency\<close>.\<close>

definition consistency_rules :: "(string \<Rightarrow> pyfloat option) \<Rightarrow> (string \<times> rule_func) list" where
  "consistency_rules parse =
     [(''Valid Age'', valid_age parse),
      (''Salary Non-negative'', salary_non_negative parse),
      (''String in set'', string_in_set)]"

subsection \<open>Rows identical by value\<close>

text \<open>
  The number a cell denotes when Python compares it as a number (a boolean is the
  integer 0 or 1), and identity of two cells by value: two missing cells are
  identical, a missing cell and a present one are not, numbers are identical when
  they denote the same number, any other two values when they are equal.
\<close>

fun num_value :: "cell \<Rightarrow> pyfloat option" where
  "num_value (CBool b) = Some (FFin (if b then 1 else 0))"
| "num_value (CInt i) = Some (FFin (of_int i))"
| "num_value (CFloat f) = Some f"
| "num_value _ = None"

definition same_value :: "cell \<Rightarrow> cell \<Rightarrow> bool" where
  "same_value a b =
     (if isnull a \<or> isnull b then isnull a \<and> isnull b
      else (case (num_value a, num_value b) of
              (Some x, Some y) \<Rightarrow> x = y
            | (None, None) \<Rightarrow> a = b
            | _ \<Rightarrow> False))"

definition same_row :: "row \<Rightarrow> row \<Rightarrow> bool" where
  "same_row r1 r2 = list_all2 (\<lambda>x y. same_value (snd x) (snd y)) r1 r2"

subsection \<open>Rows failing a rule\<close>

text \<open>
  The indices of the rows on which a rule returns \<open>False\<close>, in ascending order; the
  rule is given the row as \<open>apply\<close> hands it over.
\<close>

definition failing_rows :: "dataframe \<Rightarrow> rule_func \<Rightarrow> nat list" where
  "failing_rows df g = filter (\<lambda>i. g (row_series df i) = Inr False) [0..<nrows df]"

subsection \<open>Cells flagged in a column\<close>




subsection \<open>Types of a column\<close>

text \<open>
  The type names of the non-missing cells of a column in row order, the rows of the
  non-missing cells of a given type in ascending order, and the position at which a
  value is first encountered in a list.
\<close>

definition tags :: "cell list \<Rightarrow> string list" where
  "tags cs = map type_name (filter (\<lambda>c. \<not> isnull c) cs)"

definition rows_of_type :: "cell list \<Rightarrow> string \<Rightarrow> nat list" where
  "rows_of_type cs t = filter (\<lambda>i. \<not> isnull (cs ! i) \<and> type_name (cs ! i) = t) [0..<length cs]"

definition first_pos :: "'a list \<Rightarrow> 'a \<Rightarrow> nat" where
  "first_pos xs x = length (takeWhile (\<lambda>y. y \<noteq> x) xs)"

section \<open>Properties\<close>

subsection \<open>Properties of the normalizer\<close>

lemma clean_for_json_not_array: "clean_for_json v \<noteq> NpArray t"
  by (induction v rule: clean_for_json.induct) (simp_all add: clean_float_def)

lemma subval_Nil_not_array: "\<forall>t. v \<noteq> NpArray t \<Longrightarrow> subval v [] = Some v"
  by (cases v) simp_all

lemma nth_opt_map: "nth_opt (map f xs) i = map_option f (nth_opt xs i)"
  by (induction xs i rule: nth_opt.induct) simp_all

text \<open>The normalizer keeps the shape of the tree: it acts position by position.\<close>

lemma subval_clean_for_json:
  "subval v p = Some x \<Longrightarrow> subval (clean_for_json v) p = Some (clean_for_json x)"
proof (induction v p arbitrary: x rule: subval.induct)
  case (1 t p)
  then show ?case by simp
next
  case (3 xs i p)
  then show ?case
    by (auto simp: nth_opt_map split: option.splits)
next
  case (4 kvs i p)
  then show ?case
    by (auto simp: nth_opt_map split: option.splits)
qed (simp_all add: subval_Nil_not_array clean_for_json_not_array)

lemma clean_float_nonfinite: "\<not> finite_float f \<Longrightarrow> clean_float f keep = PStr (sentinel f)"
  by (cases f) (simp_all add: clean_float_def finite_float_def)


text \<open>
  Claim C2. Wherever the input tree holds a non-finite floating value, plain
  (\<open>PFloat\<close>) or numpy (\<open>NpFloat64\<close>, \<open>NpFloating\<close>), at any depth below lists,
  dictionary values and arrays, the normalized tree holds at the same position the
  sentinel string of that value: \<open>NaN\<close>, \<open>Infinity\<close> or \<open>-Infinity\<close>, spelled
  exactly so.
\<close>

theorem clean_for_json_nonfinite:
  "(subval v p = Some x \<and> float_of x = Some f \<and> \<not> finite_float f
      \<longrightarrow> subval (clean_for_json v) p = Some (PStr (sentinel f)))
   \<and> sentinel FNaN = ''NaN'' \<and> sentinel FPosInf = ''Infinity''
   \<and> sentinel FNegInf = ''-Infinity''"
proof -
  have "subval (clean_for_json v) p = Some (PStr (sentinel f))"
    if sv: "subval v p = Some x" and fl: "float_of x = Some f" and nf: "\<not> finite_float f"
  proof -
    have "clean_for_json x = PStr (sentinel f)"
      using fl nf by (cases x) (simp_all add: clean_float_nonfinite)
    with subval_clean_for_json [OF sv] show ?thesis by simp
  qed
  then show ?thesis by simp
qed

theorem clean_for_json_nonfinite_witness:
  "subval (PDict [(''a'', PList [PFloat FNaN, NpArray (PList [NpFloating FNegInf])])]) [0, 1, 0]
     = Some (NpFloating FNegInf)
   \<and> float_of (NpFloating FNegInf) = Some FNegInf \<and> \<not> finite_float FNegInf
   \<and> subval (clean_for_json
         (PDict [(''a'', PList [PFloat FNaN, NpArray (PList [NpFloating FNegInf])])])) [0, 1, 0]
     = Some (PStr ''-Infinity'')"
  using clean_for_json_nonfinite
    [of "PDict [(''a'', PList [PFloat FNaN, NpArray (PList [NpFloating FNegInf])])]"
        "[0, 1, 0]" "NpFloating FNegInf" FNegInf]
  by (simp add: finite_float_def)

text \<open>
  Claim C3. The normalizer is idempotent: normalizing a normalized value gives the
  same value again.
\<close>

theorem clean_for_json_idempotent: "clean_for_json (clean_for_json x) = clean_for_json x"
  by (induction x rule: clean_for_json.induct) (simp_all add: clean_float_def)










subsection \<open>Missing values\<close>

lemma wf_df_length: "wf_df df \<Longrightarrow> (c, cs) \<in> set (col_data df) \<Longrightarrow> length cs = nrows df"
  by (force simp: wf_df_def list_all_iff)

lemma flagged_missing_report:
  "filter (\<lambda>r. Missing_Count r > 0) (missing_report df)
   = map (\<lambda>(c, cs). \<lparr>Column = c, Missing_Count = length (filter isnull cs),
            Missing_Percentage = missing_percentage (length (filter isnull cs)) (nrows df)\<rparr>)
       (filter (\<lambda>(c, cs). length (filter isnull cs) > 0) (col_data df))"
  unfolding missing_report_def filter_map
  by (rule arg_cong [where f = "map _"], rule filter_cong) (auto simp: comp_def)

lemma no_flagged_iff:
  "filter (\<lambda>(c, cs). length (filter isnull cs) > 0) (col_data df) = []
   \<longleftrightarrow> (\<forall>(c, cs) \<in> set (col_data df). \<forall>x \<in> set cs. \<not> isnull x)"
  by (auto simp: filter_empty_conv)

lemma f64_one_third_times_100:
  "f64_mul (f64_div (f64 1) (f64 3)) (f64 100) = FFin (2345624805922133 / 70368744177664)"
  by code_simp

lemma f64_100_thirds: "f64 (100 / 3) = FFin (4691249611844267 / 140737488355328)"
  by code_simp

lemma f64_seven_percent:
  "f64_mul (f64_div (f64 7) (f64 100)) (f64 100) = FFin (7881299347898369 / 1125899906842624)"
  by code_simp

lemma f64_seven: "f64 7 = FFin 7"
  by code_simp

text \<open>
  Claim C4. \<open>detect_missing_values\<close> returns the string \<open>"None"\<close> exactly when no
  column has a missing cell, and never an empty list; otherwise it returns, in column
  order, one entry for each column with at least one missing cell and for no other
  column, with the column's name, the number of its missing cells, and as percentage
  the float \<open>(missing_count / row_count) * 100\<close>: the quotient of the two numbers
  rounded to a float, and its product with 100 rounded again.
\<close>

theorem detect_missing_values_spec:
  "(detect_missing_values df = NoneStr
      \<longleftrightarrow> (\<forall>(c, cs) \<in> set (col_data df). \<forall>x \<in> set cs. \<not> isnull x))
   \<and> detect_missing_values df \<noteq> Report []
   \<and> (detect_missing_values df \<noteq> NoneStr \<longrightarrow>
        detect_missing_values df
        = Report (map (\<lambda>(c, cs). \<lparr>Column = c, Missing_Count = length (filter isnull cs),
                         Missing_Percentage =
                           f64_mul (f64_div (f64 (of_nat (length (filter isnull cs))))
                                            (f64 (of_nat (nrows df))))
                                   (f64 100)\<rparr>)
                   (filter (\<lambda>(c, cs). length (filter isnull cs) > 0) (col_data df))))"
proof -
  let ?sel = "filter (\<lambda>(c, cs). length (filter isnull cs) > 0) (col_data df)"
  let ?out = "map (\<lambda>(c, cs). \<lparr>Column = c, Missing_Count = length (filter isnull cs),
                         Missing_Percentage =
                           f64_mul (f64_div (f64 (of_nat (length (filter isnull cs))))
                                            (f64 (of_nat (nrows df))))
                                   (f64 100)\<rparr>) ?sel"
  have fl: "filter (\<lambda>r. Missing_Count r > 0) (missing_report df) = ?out"
    using flagged_missing_report [of df] by (simp add: missing_percentage_def)
  have res: "detect_missing_values df = (if ?sel = [] then NoneStr else Report ?out)"
    by (simp add: detect_missing_values_def fl)
  show ?thesis
    unfolding res using no_flagged_iff [of df] by simp
qed

theorem detect_missing_values_spec_witness:
  "detect_missing_values \<lparr>col_data = [(''Age'', [CInt 25, CFloat FNaN, CInt 3]),
                       (''Name'', [CStr ''a'', CStr ''b'', CStr ''c''])], nrows = 3\<rparr> \<noteq> NoneStr
   \<and> detect_missing_values \<lparr>col_data = [(''Age'', [CInt 25, CFloat FNaN, CInt 3]),
                       (''Name'', [CStr ''a'', CStr ''b'', CStr ''c''])], nrows = 3\<rparr>
     = Report [\<lparr>Column = ''Age'', Missing_Count = 1,
                Missing_Percentage = FFin (2345624805922133 / 70368744177664)\<rparr>]"
proof -
  let ?df = "\<lparr>col_data = [(''Age'', [CInt 25, CFloat FNaN, CInt 3]),
                       (''Name'', [CStr ''a'', CStr ''b'', CStr ''c''])], nrows = 3\<rparr>"
  have ne: "detect_missing_values ?df \<noteq> NoneStr"
    using detect_missing_values_spec [of ?df] by simp
  show ?thesis
    using ne detect_missing_values_spec [of ?df] by (simp add: f64_one_third_times_100)
qed

text \<open>
  The percentage is not \<open>100 * missing_count / row_count\<close>. For one missing cell in
  three rows the function reports \<open>33.33333333333333\<close>, which is neither the number
  \<open>100 / 3\<close> nor the float \<open>33.333333333333336\<close> nearest to it, the value of
  \<open>100 * 1 / 3\<close> in Python; for seven missing cells in a hundred rows it reports
  \<open>7.000000000000001\<close>, where \<open>100 * 7 / 100\<close> is \<open>7.0\<close>.
\<close>

theorem missing_percentage_counterexample:
  "detect_missing_values \<lparr>col_data = [(''Age'', [CInt 25, CFloat FNaN, CInt 3])], nrows = 3\<rparr>
     = Report [\<lparr>Column = ''Age'', Missing_Count = 1,
                Missing_Percentage = FFin (2345624805922133 / 70368744177664)\<rparr>]
   \<and> f64 (100 * 1 / 3) = FFin (4691249611844267 / 140737488355328)
   \<and> FFin (2345624805922133 / 70368744177664) \<noteq> f64 (100 * 1 / 3)
   \<and> FFin (2345624805922133 / 70368744177664) \<noteq> FFin (100 * 1 / 3)
   \<and> missing_percentage 7 100 = FFin (7881299347898369 / 1125899906842624)
   \<and> f64 (100 * 7 / 100) = FFin 7
   \<and> missing_percentage 7 100 \<noteq> FFin (100 * 7 / 100)"
proof -
  have a: "detect_missing_values \<lparr>col_data = [(''Age'', [CInt 25, CFloat FNaN, CInt 3])], nrows = 3\<rparr>
     = Report [\<lparr>Column = ''Age'', Missing_Count = 1,
                Missing_Percentage = FFin (2345624805922133 / 70368744177664)\<rparr>]"
    using f64_one_third_times_100
    by (simp add: detect_missing_values_def missing_report_def missing_percentage_def)
  have b: "f64 (100 * 1 / 3) = FFin (4691249611844267 / 140737488355328)"
    using f64_100_thirds by simp
  have c: "FFin (2345624805922133 / 70368744177664) \<noteq> f64 (100 * 1 / 3)"
    unfolding b by simp
  have d: "FFin (2345624805922133 / 70368744177664) \<noteq> FFin (100 * 1 / 3)"
    by simp
  have e: "missing_percentage 7 100 = FFin (7881299347898369 / 1125899906842624)"
    unfolding missing_percentage_def using f64_seven_percent by simp
  have f: "f64 (100 * 7 / 100) = FFin 7"
    using f64_seven by simp
  have g: "missing_percentage 7 100 \<noteq> FFin (100 * 7 / 100)"
    unfolding e by simp
  show ?thesis
    by (intro conjI a b c d e f g)
qed

subsection \<open>Duplicate rows\<close>

lemma same_value_factorize: "same_value a b \<longleftrightarrow> factorize a = factorize b"
  by (cases a; cases b) (auto simp: same_value_def)

lemma map_eq_iff_list_all2:
  "map f xs = map f ys \<longleftrightarrow> list_all2 (\<lambda>x y. f x = f y) xs ys"
proof (induction xs arbitrary: ys)
  case Nil
  then show ?case by simp
next
  case (Cons x xs)
  then show ?case by (cases ys) simp_all
qed

lemma same_row_labels: "same_row r1 r2 \<longleftrightarrow> row_labels r1 = row_labels r2"
  by (simp add: same_row_def row_labels_def same_value_factorize case_prod_unfold
      map_eq_iff_list_all2 [of "\<lambda>p. factorize (snd p)"])

lemma length_duplicated_loop: "length (duplicated_loop seen ks) = length ks"
  by (induction ks arbitrary: seen) simp_all

lemma duplicated_loop_nth:
  "i < length ks \<Longrightarrow>
     duplicated_loop seen ks ! i \<longleftrightarrow> ks ! i \<in> set seen \<or> (\<exists>j<i. ks ! j = ks ! i)"
proof (induction ks arbitrary: seen i)
  case Nil
  then show ?case by simp
next
  case (Cons k ks)
  show ?case
  proof (cases i)
    case 0
    then show ?thesis by simp
  next
    case (Suc n)
    with Cons.prems have n: "n < length ks" by simp
    have ex: "(\<exists>j<Suc n. (k # ks) ! j = ks ! n) \<longleftrightarrow> k = ks ! n \<or> (\<exists>j<n. ks ! j = ks ! n)"
      by (auto simp: less_Suc_eq_0_disj)
    show ?thesis
      using Cons.IH [OF n] Suc ex by auto
  qed
qed

lemma nonzero_snoc: "nonzero (m @ [b]) = nonzero m @ (if b then [length m] else [])"
proof -
  have "filter (\<lambda>i. (m @ [b]) ! i) [0..<length m] = filter (\<lambda>i. m ! i) [0..<length m]"
    by (rule filter_cong) (simp_all add: nth_append)
  then show ?thesis by (simp add: nonzero_def)
qed

lemma mask_sum_snoc: "mask_sum (m @ [b]) = mask_sum m + (if b then 1 else 0)"
  by (simp add: mask_sum_def)

lemma mask_sum_nonzero: "mask_sum m = length (nonzero m)"
proof (induction m rule: rev_induct)
  case Nil
  show ?case by (simp add: mask_sum_def nonzero_def)
next
  case (snoc b m)
  then show ?case by (simp add: mask_sum_snoc nonzero_snoc)
qed

lemma sorted_nonzero: "sorted_wrt (<) (nonzero m)"
  by (simp add: nonzero_def sorted_wrt_filter)

lemma set_nonzero: "i \<in> set (nonzero m) \<longleftrightarrow> i < length m \<and> m ! i"
  by (auto simp: nonzero_def)

lemma mask_any_nonzero: "mask_any m \<longleftrightarrow> nonzero m \<noteq> []"
proof
  assume "mask_any m"
  then have "True \<in> set m" by (auto simp: mask_any_def list_ex_iff)
  then obtain i where "i < length m" "m ! i" by (auto simp: in_set_conv_nth)
  then have "i \<in> set (nonzero m)" by (simp add: set_nonzero)
  then show "nonzero m \<noteq> []" by auto
next
  assume "nonzero m \<noteq> []"
  then obtain i where "i \<in> set (nonzero m)" by (cases "nonzero m") auto
  then have "i < length m" "m ! i" by (simp_all add: set_nonzero)
  then have "True \<in> set m" by (metis nth_mem)
  then show "mask_any m" by (auto simp: mask_any_def list_ex_iff)
qed

lemma length_iterrows: "length (iterrows df) = nrows df"
  by (simp add: iterrows_def)

lemma nth_iterrows: "i < nrows df \<Longrightarrow> iterrows df ! i = row_series df i"
  by (simp add: iterrows_def)

lemma length_frame_rows: "length (frame_rows df) = nrows df"
  by (simp add: frame_rows_def)

lemma nth_frame_rows: "i < nrows df \<Longrightarrow> frame_rows df ! i = row_at df i"
  by (simp add: frame_rows_def)

lemma detect_duplicates_indices: "indices (detect_duplicates df) = nonzero (duplicated df)"
  by (simp add: detect_duplicates_def Let_def mask_sum_nonzero)

lemma detect_duplicates_count: "count (detect_duplicates df) = length (nonzero (duplicated df))"
  by (simp add: detect_duplicates_def Let_def mask_sum_nonzero)

lemma wf_df_columns: "wf_df df \<Longrightarrow> 0 < nrows df \<Longrightarrow> col_data df \<noteq> []"
  by (auto simp: wf_df_def)

lemma duplicated_loop_rows:
  "wf_df df \<Longrightarrow> duplicated df = duplicated_loop [] (map row_labels (frame_rows df))"
  by (cases "nrows df = 0") (auto simp: duplicated_def frame_rows_def dest: wf_df_columns)

lemma duplicated_nth:
  assumes "wf_df df" and "i < nrows df"
  shows "duplicated df ! i \<longleftrightarrow> (\<exists>j<i. same_row (row_at df j) (row_at df i))"
proof -
  have "duplicated df ! i \<longleftrightarrow> (\<exists>j<i. map row_labels (frame_rows df) ! j = map row_labels (frame_rows df) ! i)"
    using assms by (simp add: duplicated_loop_rows duplicated_loop_nth length_frame_rows)
  also have "\<dots> \<longleftrightarrow> (\<exists>j<i. same_row (row_at df j) (row_at df i))"
    using assms by (auto simp: length_frame_rows nth_frame_rows same_row_labels)
  finally show ?thesis .
qed

lemma flagged_duplicate_iff:
  assumes "wf_df df"
  shows "i \<in> set (indices (detect_duplicates df))
   \<longleftrightarrow> i < nrows df \<and> (\<exists>j<i. same_row (row_at df j) (row_at df i))"
  using duplicated_nth [OF assms, of i]
  by (auto simp: detect_duplicates_indices set_nonzero duplicated_loop_rows [OF assms]
      length_duplicated_loop length_frame_rows)

lemma strict_sorted_singleton:
  assumes "sorted_wrt (<) xs" and "set xs = {a::nat}"
  shows "xs = [a]"
proof -
  have "sorted_wrt (<) [a]" by simp
  moreover have "set [a] = set xs" using assms by simp
  ultimately show ?thesis using assms(1) strict_sorted_equal by blast
qed

lemma duplicates_scenario:
  assumes wf: "wf_df df" and n: "4 \<le> nrows df"
    and sc: "\<forall>i<nrows df. \<forall>j<i. same_row (row_at df j) (row_at df i) \<longleftrightarrow> j = 0 \<and> i = 3"
  shows "detect_duplicates df = \<lparr>count = 1, indices = [3]\<rparr>"
proof -
  have "k \<in> set (indices (detect_duplicates df)) \<longleftrightarrow> k = 3" for k
  proof
    assume "k \<in> set (indices (detect_duplicates df))"
    then obtain j where "k < nrows df" "j < k" "same_row (row_at df j) (row_at df k)"
      unfolding flagged_duplicate_iff [OF wf] by blast
    with sc show "k = 3" by blast
  next
    assume k: "k = 3"
    with n have "k < nrows df" by simp
    moreover have "same_row (row_at df 0) (row_at df 3)"
      using sc n by simp
    ultimately show "k \<in> set (indices (detect_duplicates df))"
      unfolding flagged_duplicate_iff [OF wf] using k by (intro conjI exI [of _ 0]) simp_all
  qed
  then have "set (indices (detect_duplicates df)) = {3}" by blast
  moreover have "sorted_wrt (<) (indices (detect_duplicates df))"
    by (simp add: detect_duplicates_indices sorted_nonzero)
  ultimately have idx: "indices (detect_duplicates df) = [3]"
    by (rule strict_sorted_singleton [rotated])
  have "count (detect_duplicates df) = length (indices (detect_duplicates df))"
    by (simp add: detect_duplicates_indices detect_duplicates_count)
  with idx show ?thesis
    by (cases "detect_duplicates df") simp
qed

text \<open>
  Claim C5. In a well-formed dataset, \<open>detect_duplicates\<close> flags row \<open>i\<close> if and only
  if some earlier row is identical to it by value in every column (missing cells
  included), so the first row of each pattern is never flagged; the flagged indices
  are in ascending order and \<open>count\<close> is their number (so they are empty when
  \<open>count\<close> is 0). In particular, when rows 0 and 3 are identical and no other two
  rows are, the result is \<open>{count: 1, indices: [3]}\<close>.
\<close>

theorem detect_duplicates_spec:
  assumes "wf_df df"
  shows "(i \<in> set (indices (detect_duplicates df))
            \<longleftrightarrow> i < nrows df \<and> (\<exists>j<i. same_row (row_at df j) (row_at df i)))
       \<and> sorted_wrt (<) (indices (detect_duplicates df))
       \<and> count (detect_duplicates df) = length (indices (detect_duplicates df))
       \<and> (4 \<le> nrows df
            \<and> (\<forall>i<nrows df. \<forall>j<i. same_row (row_at df j) (row_at df i) \<longleftrightarrow> j = 0 \<and> i = 3)
          \<longrightarrow> detect_duplicates df = \<lparr>count = 1, indices = [3]\<rparr>)"
proof (intro conjI impI)
  show "i \<in> set (indices (detect_duplicates df))
            \<longleftrightarrow> i < nrows df \<and> (\<exists>j<i. same_row (row_at df j) (row_at df i))"
    by (rule flagged_duplicate_iff [OF assms])
  show "sorted_wrt (<) (indices (detect_duplicates df))"
    by (simp add: detect_duplicates_indices sorted_nonzero)
  show "count (detect_duplicates df) = length (indices (detect_duplicates df))"
    by (simp add: detect_duplicates_indices detect_duplicates_count)
  assume "4 \<le> nrows df
            \<and> (\<forall>i<nrows df. \<forall>j<i. same_row (row_at df j) (row_at df i) \<longleftrightarrow> j = 0 \<and> i = 3)"
  then show "detect_duplicates df = \<lparr>count = 1, indices = [3]\<rparr>"
    using duplicates_scenario [OF assms] by blast
qed

theorem detect_duplicates_spec_witness:
  "wf_df \<lparr>col_data = [(''Age'', [CInt 25, CInt 30, CInt 41, CInt 25]),
                       (''Salary'', [CInt 50000, CInt 50000, CFloat FNaN, CInt 50000])], nrows = 4\<rparr>
   \<and> detect_duplicates \<lparr>col_data = [(''Age'', [CInt 25, CInt 30, CInt 41, CInt 25]),
                       (''Salary'', [CInt 50000, CInt 50000, CFloat FNaN, CInt 50000])], nrows = 4\<rparr>
     = \<lparr>count = 1, indices = [3]\<rparr>"
proof -
  let ?df = "\<lparr>col_data = [(''Age'', [CInt 25, CInt 30, CInt 41, CInt 25]),
                       (''Salary'', [CInt 50000, CInt 50000, CFloat FNaN, CInt 50000])], nrows = 4\<rparr>"
  have wf: "wf_df ?df" by (simp add: wf_df_def columns_def)
  have sc: "\<forall>i<nrows ?df. \<forall>j<i. same_row (row_at ?df j) (row_at ?df i) \<longleftrightarrow> j = 0 \<and> i = 3"
    by (simp add: eval_nat_numeral All_less_Suc same_row_def row_at_def same_value_def)
  show ?thesis
    using wf sc detect_duplicates_spec [OF wf, of 3] by simp
qed

subsection \<open>Counts and indices of the reported entries\<close>

lemma set_AList_update: "(k, v) \<in> set (AList.update k' v' al) \<Longrightarrow> (k, v) = (k', v') \<or> (k, v) \<in> set al"
  by (induction al) (auto split: if_splits)

lemma length_select: "length m = length xs \<Longrightarrow> length (select m xs) = mask_sum m"
  by (induction m xs rule: list_induct2) (simp_all add: select_def mask_sum_def)

lemma length_df_apply: "df_apply f rs = Inr bs \<Longrightarrow> length bs = length rs"
  by (induction rs arbitrary: bs) (auto split: sum.splits)

lemma check_column_entry:
  "check_column str_match frepr rule cs = Some e \<Longrightarrow> count e = length (indices e) \<and> sorted_wrt (<) (indices e)"
  by (auto simp: check_column_def Let_def mask_sum_nonzero sorted_nonzero split: if_splits)

lemma check_rule_entry:
  assumes "check_rule df name f = Some (Failed e)"
  shows "count e = length (indices e) \<and> sorted_wrt (<) (indices e) \<and> count e = length (rows e)"
proof -
  from assms obtain passed where p: "df_apply f (iterrows df) = Inr passed"
    and e: "e = \<lparr>count = mask_sum (map Not passed), indices = nonzero (map Not passed),
                   rows = map clean_row (select (map Not passed) (iterrows df))\<rparr>"
    by (auto simp: check_rule_def Let_def split: sum.splits exn.splits if_splits)
  have "length (map Not passed) = length (iterrows df)"
    using length_df_apply [OF p] by simp
  then have "length (select (map Not passed) (iterrows df)) = mask_sum (map Not passed)"
    by (rule length_select)
  then show ?thesis
    by (simp add: e mask_sum_nonzero sorted_nonzero)
qed

text \<open>The loops add only what the loop body computes for one of the rules.\<close>

lemma invalid_fold_entries:
  assumes "(col, e) \<in> set (fold (\<lambda>(col, rule) entries.
                    case map_of (col_data df) col of None \<Rightarrow> entries
                    | Some cs \<Rightarrow>
                        (case check_column str_match frepr rule cs of None \<Rightarrow> entries
                         | Some e \<Rightarrow> AList.update col e entries)) rules acc)"
  shows "(col, e) \<in> set acc \<or> (\<exists>rule cs. check_column str_match frepr rule cs = Some e)"
  using assms
proof (induction rules arbitrary: acc)
  case Nil
  then show ?case by simp
next
  case (Cons r rules)
  obtain c rule where r: "r = (c, rule)" by (cases r)
  define acc' where "acc' = (case map_of (col_data df) c of None \<Rightarrow> acc
                    | Some cs \<Rightarrow>
                        (case check_column str_match frepr rule cs of None \<Rightarrow> acc
                         | Some e \<Rightarrow> AList.update c e acc))"
  from Cons.prems have "(col, e) \<in> set (fold (\<lambda>(col, rule) entries.
                    case map_of (col_data df) col of None \<Rightarrow> entries
                    | Some cs \<Rightarrow>
                        (case check_column str_match frepr rule cs of None \<Rightarrow> entries
                         | Some e \<Rightarrow> AList.update col e entries)) rules acc')"
    by (simp add: r acc'_def)
  from Cons.IH [OF this]
  consider "(col, e) \<in> set acc'" | "\<exists>rule cs. check_column str_match frepr rule cs = Some e"
    by blast
  then show ?case
  proof cases
    case 1
    show ?thesis
    proof (cases "map_of (col_data df) c")
      case None
      with 1 show ?thesis by (simp add: acc'_def)
    next
      case (Some cs)
      show ?thesis
      proof (cases "check_column str_match frepr rule cs")
        case None
        with 1 Some show ?thesis by (simp add: acc'_def)
      next
        case (Some e')
        with 1 \<open>map_of (col_data df) c = Some cs\<close>
        have "(col, e) \<in> set (AList.update c e' acc)" by (simp add: acc'_def)
        from set_AList_update [OF this] Some show ?thesis by auto
      qed
    qed
  next
    case 2
    then show ?thesis by simp
  qed
qed

lemma consistency_fold_entries:
  assumes "(name, e) \<in> set (fold (\<lambda>(rule_name, rule_func) entries.
                    case check_rule df rule_name rule_func of None \<Rightarrow> entries
                    | Some e \<Rightarrow> AList.update rule_name e entries) rules acc)"
  shows "(name, e) \<in> set acc \<or> (\<exists>n f. (n, f) \<in> set rules \<and> check_rule df n f = Some e)"
  using assms
proof (induction rules arbitrary: acc)
  case Nil
  then show ?case by simp
next
  case (Cons r rules)
  obtain n f where r: "r = (n, f)" by (cases r)
  define acc' where "acc' = (case check_rule df n f of None \<Rightarrow> acc
                    | Some e \<Rightarrow> AList.update n e acc)"
  from Cons.prems have "(name, e) \<in> set (fold (\<lambda>(rule_name, rule_func) entries.
                    case check_rule df rule_name rule_func of None \<Rightarrow> entries
                    | Some e \<Rightarrow> AList.update rule_name e entries) rules acc')"
    by (simp add: r acc'_def)
  from Cons.IH [OF this]
  consider "(name, e) \<in> set acc'"
    | "\<exists>n f. (n, f) \<in> set rules \<and> check_rule df n f = Some e"
    by blast
  then show ?case
  proof cases
    case 1
    show ?thesis
    proof (cases "check_rule df n f")
      case None
      with 1 show ?thesis by (simp add: acc'_def)
    next
      case (Some e')
      with 1 have "(name, e) \<in> set (AList.update n e' acc)" by (simp add: acc'_def)
      from set_AList_update [OF this] Some show ?thesis by (auto simp: r)
    qed
  next
    case 2
    then show ?thesis by auto
  qed
qed

text \<open>
  Claim C10. In the result of \<open>detect_duplicates\<close>, in every entry of the result of
  \<open>detect_invalid_inputs\<close> and in every entry of the result of \<open>check_consistency\<close>
  that is not an error entry, \<open>count\<close> is the length of \<open>indices\<close> and the indices are
  strictly ascending; in the entries of \<open>check_consistency\<close>, \<open>count\<close> is also the
  length of \<open>rows\<close>.
\<close>

theorem count_matches_indices:
  "count (detect_duplicates df) = length (indices (detect_duplicates df))
   \<and> sorted_wrt (<) (indices (detect_duplicates df))
   \<and> (detect_invalid_inputs str_match frepr df rules = Report es \<and> (col, e) \<in> set es
        \<longrightarrow> count e = length (indices e) \<and> sorted_wrt (<) (indices e))
   \<and> (check_consistency df crules = Report rs \<and> (name, Failed f) \<in> set rs
        \<longrightarrow> count f = length (indices f) \<and> sorted_wrt (<) (indices f)
            \<and> count f = length (rows f))"
proof (intro conjI impI)
  show "count (detect_duplicates df) = length (indices (detect_duplicates df))"
    by (simp add: detect_duplicates_indices detect_duplicates_count)
  show "sorted_wrt (<) (indices (detect_duplicates df))"
    by (simp add: detect_duplicates_indices sorted_nonzero)
next
  assume a: "detect_invalid_inputs str_match frepr df rules = Report es \<and> (col, e) \<in> set es"
  then have "\<exists>rule cs. check_column str_match frepr rule cs = Some e"
    using invalid_fold_entries [where acc = "[]"]
    by (auto simp: detect_invalid_inputs_def Let_def split: if_splits)
  then obtain rule cs where "check_column str_match frepr rule cs = Some e"
    by blast
  from check_column_entry [OF this]
  show "count e = length (indices e)" and "sorted_wrt (<) (indices e)"
    by simp_all
next
  assume a: "check_consistency df crules = Report rs \<and> (name, Failed f) \<in> set rs"
  then have "\<exists>n g. (n, g) \<in> set crules \<and> check_rule df n g = Some (Failed f)"
    using consistency_fold_entries [where acc = "[]"]
    by (auto simp: check_consistency_def Let_def split: if_splits)
  then show "count f = length (indices f)" and "sorted_wrt (<) (indices f)"
    and "count f = length (rows f)"
    using check_rule_entry by blast+
qed

theorem count_matches_indices_witness:
  "detect_invalid_inputs re_match (\<lambda>q. ''0.0'')
       \<lparr>col_data = [(''Age'', [CInt 30, CInt 150, CStr ''x''])], nrows = 3\<rparr>
       [(''Age'', Seq (Cls ''0123456789'') (Star (Cls ''0123456789'')))]
     = Report [(''Age'', \<lparr>count = 1, indices = [2], values = [CStr ''x'']\<rparr>)]
   \<and> check_consistency \<lparr>col_data = [(''Age'', [CInt 30, CInt 150, CStr ''x''])], nrows = 3\<rparr>
        [(''Below 100'', \<lambda>r. Inr (map_of r ''Age'' \<noteq> Some (CInt 150)))]
     = Report [(''Below 100'', Failed \<lparr>count = 1, indices = [1],
                                        rows = [[(''Age'', CInt 150)]]\<rparr>)]
   \<and> count (detect_duplicates \<lparr>col_data = [(''Age'', [CInt 30, CInt 150, CStr ''x''])], nrows = 3\<rparr>)
       = length (indices (detect_duplicates
             \<lparr>col_data = [(''Age'', [CInt 30, CInt 150, CStr ''x''])], nrows = 3\<rparr>))"
proof -
  let ?df = "\<lparr>col_data = [(''Age'', [CInt 30, CInt 150, CStr ''x''])], nrows = 3\<rparr>"
  have a: "detect_invalid_inputs re_match (\<lambda>q. ''0.0'') ?df
       [(''Age'', Seq (Cls ''0123456789'') (Star (Cls ''0123456789'')))]
     = Report [(''Age'', \<lparr>count = 1, indices = [2], values = [CStr ''x'']\<rparr>)]"
    by code_simp
  have b: "check_consistency ?df
        [(''Below 100'', \<lambda>r. Inr (map_of r ''Age'' \<noteq> Some (CInt 150)))]
     = Report [(''Below 100'', Failed \<lparr>count = 1, indices = [1],
                                        rows = [[(''Age'', CInt 150)]]\<rparr>)]"
    by code_simp
  from count_matches_indices
    [where df = ?df and str_match = re_match and frepr = "\<lambda>q. ''0.0''"
       and rules = "[(''Age'', Seq (Cls ''0123456789'') (Star (Cls ''0123456789'')))]"
       and es = "[(''Age'', \<lparr>count = 1, indices = [2], values = [CStr ''x'']\<rparr>)]"
       and col = "''Age''" and e = "\<lparr>count = 1, indices = [2], values = [CStr ''x'']\<rparr>"
       and crules = "[(''Below 100'', \<lambda>r. Inr (map_of r ''Age'' \<noteq> Some (CInt 150)))]"
       and rs = "[(''Below 100'', Failed \<lparr>count = 1, indices = [1],
                                        rows = [[(''Age'', CInt 150)]]\<rparr>)]"
       and name = "''Below 100''"
       and f = "\<lparr>count = 1, indices = [1], rows = [[(''Age'', CInt 150)]]\<rparr>"]
    a b
  show ?thesis by simp
qed

subsection \<open>Consistency rules\<close>

lemma nonzero_Cons: "nonzero (b # m) = (if b then [0] else []) @ map Suc (nonzero m)"
proof -
  have "[0..<Suc (length m)] = 0 # map Suc [0..<length m]"
    by (simp add: upt_conv_Cons map_Suc_upt del: upt_Suc)
  then show ?thesis
    by (simp add: nonzero_def filter_map comp_def)
qed

lemma select_nonzero: "length m = length xs \<Longrightarrow> select m xs = map (\<lambda>i. xs ! i) (nonzero m)"
proof (induction m xs rule: list_induct2)
  case Nil
  show ?case by (simp add: select_def nonzero_def)
next
  case (Cons b m x xs)
  have "select (b # m) (x # xs) = (if b then [x] else []) @ select m xs"
    by (simp add: select_def)
  with Cons.IH show ?case
    by (simp add: nonzero_Cons comp_def)
qed

lemma nonzero_map: "nonzero (map P xs) = filter (\<lambda>i. P (xs ! i)) [0..<length xs]"
  unfolding nonzero_def by (rule filter_cong) simp_all

lemma df_apply_raises_in: "r \<in> set rs \<Longrightarrow> isl (f r) \<Longrightarrow> \<exists>e. df_apply f rs = Inl e"
  by (induction rs) (auto split: sum.splits)

lemma df_apply_raises: "\<exists>r\<in>set rs. isl (f r) \<Longrightarrow> \<exists>e. df_apply f rs = Inl e"
  using df_apply_raises_in by blast

lemma df_apply_Inl: "df_apply f rs = Inl e \<Longrightarrow> \<exists>r\<in>set rs. f r = Inl e"
  by (induction rs) (auto split: sum.splits)

lemma df_apply_total: "\<forall>r\<in>set rs. \<not> isl (f r) \<Longrightarrow> df_apply f rs = Inr (map (\<lambda>r. projr (f r)) rs)"
  by (induction rs) (auto split: sum.splits)

lemma check_rule_raises:
  assumes "\<exists>r\<in>set (iterrows df). isl (f r)"
  shows "\<exists>msg. check_rule df name f = Some (RuleError msg (''Error checking rule: '' @ name))
           \<and> (\<exists>r\<in>set (iterrows df). f r = Inl (Exception msg))"
proof -
  from df_apply_raises [OF assms] obtain e where e: "df_apply f (iterrows df) = Inl e" by blast
  obtain msg where m: "e = Exception msg" by (cases e)
  from df_apply_Inl [OF e] have "\<exists>r\<in>set (iterrows df). f r = Inl (Exception msg)"
    by (simp add: m)
  moreover have "check_rule df name f = Some (RuleError msg (''Error checking rule: '' @ name))"
    by (simp add: check_rule_def e m)
  ultimately show ?thesis by blast
qed

lemma check_rule_total:
  assumes "\<forall>r\<in>set (iterrows df). \<not> isl (g r)"
  shows "check_rule df n g =
           (if failing_rows df g = [] then None
            else Some (Failed \<lparr>count = length (failing_rows df g), indices = failing_rows df g,
                                rows = map (\<lambda>i. clean_row (row_series df i)) (failing_rows df g)\<rparr>))"
proof -
  define passed where "passed = map (\<lambda>r. projr (g r)) (iterrows df)"
  define m where "m = map Not passed"
  have ap: "df_apply g (iterrows df) = Inr passed"
    unfolding passed_def by (rule df_apply_total [OF assms])
  have len: "length m = length (iterrows df)"
    by (simp add: m_def passed_def)
  have "nonzero m = filter (\<lambda>i. \<not> projr (g (iterrows df ! i))) [0..<length (iterrows df)]"
    by (simp add: m_def passed_def nonzero_map comp_def)
  also have "\<dots> = filter (\<lambda>i. g (row_series df i) = Inr False) [0..<nrows df]"
  proof (unfold length_iterrows, rule filter_cong [OF refl])
    fix i assume "i \<in> set [0..<nrows df]"
    then have i: "i < nrows df" by simp
    then have "iterrows df ! i \<in> set (iterrows df)" by (simp add: length_iterrows)
    with assms have "\<not> isl (g (iterrows df ! i))" by blast
    then show "(\<not> projr (g (iterrows df ! i))) = (g (row_series df i) = Inr False)"
      using i by (cases "g (row_series df i)") (simp_all add: nth_iterrows)
  qed
  finally have nz: "nonzero m = failing_rows df g" by (simp add: failing_rows_def)
  have "select m (iterrows df) = map (\<lambda>i. iterrows df ! i) (nonzero m)"
    by (rule select_nonzero [OF len])
  also have "\<dots> = map (row_series df) (failing_rows df g)"
    unfolding nz by (rule map_cong) (simp_all add: failing_rows_def nth_iterrows)
  finally have sel: "select m (iterrows df) = map (row_series df) (failing_rows df g)" .
  have "check_rule df n g =
          (if mask_any m
           then Some (Failed \<lparr>count = mask_sum m, indices = nonzero m,
                               rows = map clean_row (select m (iterrows df))\<rparr>)
           else None)"
    by (simp add: check_rule_def ap Let_def m_def)
  then show ?thesis
    by (simp add: mask_any_nonzero mask_sum_nonzero nz sel comp_def)
qed

lemma consistency_fold_map_of:
  assumes "distinct (map fst rules)"
  shows "map_of (fold (\<lambda>(rule_name, rule_func) entries.
                    case check_rule df rule_name rule_func of None \<Rightarrow> entries
                    | Some e \<Rightarrow> AList.update rule_name e entries) rules acc) k
         = (case map_of rules k of None \<Rightarrow> map_of acc k
            | Some g \<Rightarrow> (case check_rule df k g of None \<Rightarrow> map_of acc k | Some e \<Rightarrow> Some e))"
  using assms
proof (induction rules arbitrary: acc)
  case Nil
  show ?case by simp
next
  case (Cons r rules)
  obtain n f where r: "r = (n, f)" by (cases r)
  define acc' where "acc' = (case check_rule df n f of None \<Rightarrow> acc
                    | Some e \<Rightarrow> AList.update n e acc)"
  from Cons.prems have d: "distinct (map fst rules)" and nn: "n \<notin> fst ` set rules"
    by (simp_all add: r)
  have acc': "map_of acc' j = (if j = n then (case check_rule df n f of None \<Rightarrow> map_of acc j
                                 | Some e \<Rightarrow> Some e) else map_of acc j)" for j
    by (simp add: acc'_def update_conv' split: option.splits)
  have none: "map_of rules n = None"
    using nn by (simp add: map_of_eq_None_iff)
  have "map_of (fold (\<lambda>(rule_name, rule_func) entries.
                    case check_rule df rule_name rule_func of None \<Rightarrow> entries
                    | Some e \<Rightarrow> AList.update rule_name e entries) (r # rules) acc) k
      = map_of (fold (\<lambda>(rule_name, rule_func) entries.
                    case check_rule df rule_name rule_func of None \<Rightarrow> entries
                    | Some e \<Rightarrow> AList.update rule_name e entries) rules acc') k"
    by (simp add: r acc'_def)
  also have "\<dots> = (case map_of rules k of None \<Rightarrow> map_of acc' k
            | Some g \<Rightarrow> (case check_rule df k g of None \<Rightarrow> map_of acc' k | Some e \<Rightarrow> Some e))"
    by (rule Cons.IH [OF d])
  also have "\<dots> = (case map_of (r # rules) k of None \<Rightarrow> map_of acc k
            | Some g \<Rightarrow> (case check_rule df k g of None \<Rightarrow> map_of acc k | Some e \<Rightarrow> Some e))"
    using none by (cases "k = n") (simp_all add: r acc' split: option.splits)
  finally show ?case .
qed

lemma check_consistency_map_of:
  assumes "distinct (map fst crules)" and "(n, g) \<in> set crules"
    and "check_consistency df crules = Report rs"
  shows "map_of rs n = check_rule df n g"
proof -
  from assms(1,2) have "map_of crules n = Some g" by simp
  with assms(3) consistency_fold_map_of [OF assms(1), of df "[]" n] show ?thesis
    by (auto simp: check_consistency_def Let_def split: if_splits option.splits)
qed

lemma check_consistency_Report:
  assumes "distinct (map fst crules)" and "(n, g) \<in> set crules" and "check_rule df n g = Some e"
  shows "\<exists>rs. check_consistency df crules = Report rs"
proof -
  from assms(1,2) have "map_of crules n = Some g" by simp
  with assms(3) consistency_fold_map_of [OF assms(1), of df "[]" n]
  have "fold (\<lambda>(rule_name, rule_func) entries.
                    case check_rule df rule_name rule_func of None \<Rightarrow> entries
                    | Some e \<Rightarrow> AList.update rule_name e entries) crules [] \<noteq> []"
    by auto
  then show ?thesis by (simp add: check_consistency_def Let_def)
qed

lemma dq_check_loop_raises:
  assumes "(name, f) \<in> set crules" and "\<exists>r\<in>set (iterrows df). isl (f r)"
  shows "\<exists>e. dq_check_loop df crules entries = Inl e
           \<and> (\<exists>(n, g)\<in>set crules. \<exists>r\<in>set (iterrows df). g r = Inl e)"
  using assms(1)
proof (induction crules arbitrary: entries)
  case Nil
  then show ?case by simp
next
  case (Cons c crules)
  obtain n g where c: "c = (n, g)" by (cases c)
  show ?case
  proof (cases "df_apply g (iterrows df)")
    case (Inl e)
    from df_apply_Inl [OF Inl] have "\<exists>r\<in>set (iterrows df). g r = Inl e" .
    with Inl show ?thesis by (auto simp: c)
  next
    case (Inr passed)
    have "f \<noteq> g"
      using df_apply_raises [OF assms(2)] Inr by auto
    with Cons.prems have "(name, f) \<in> set crules" by (auto simp: c)
    from Cons.IH [OF this] show ?thesis
      using Inr by (simp add: c Let_def) blast
  qed
qed

text \<open>
  An example: the first rule raises on the string in row 2, the second fails row 1.
\<close>

lemma check_consistency_example:
  "check_consistency \<lparr>col_data = [(''Age'', [CInt 30, CInt 150, CStr ''x''])], nrows = 3\<rparr>
        [(''No strings'', \<lambda>r. case map_of r ''Age'' of
                            Some (CStr s) \<Rightarrow> Inl (Exception (''not a number: '' @ s))
                          | _ \<Rightarrow> Inr True),
         (''Below 100'', \<lambda>r. Inr (map_of r ''Age'' \<noteq> Some (CInt 150)))]
     = Report [(''No strings'', RuleError ''not a number: x'' ''Error checking rule: No strings''),
               (''Below 100'', Failed \<lparr>count = 1, indices = [1],
                                        rows = [[(''Age'', CInt 150)]]\<rparr>)]"
  by code_simp

lemma dq_check_consistency_example:
  "dq_check_consistency \<lparr>col_data = [(''Age'', [CInt 30, CInt 150, CStr ''x''])], nrows = 3\<rparr>
        [(''No strings'', \<lambda>r. case map_of r ''Age'' of
                            Some (CStr s) \<Rightarrow> Inl (Exception (''not a number: '' @ s))
                          | _ \<Rightarrow> Inr True),
         (''Below 100'', \<lambda>r. Inr (map_of r ''Age'' \<noteq> Some (CInt 150)))]
     = Inl (Exception ''not a number: x'')"
  by code_simp

text \<open>
  When every column is numeric and one of them holds floats, the rule is given the
  integers of a row as floats, and so they are in the reported rows.
\<close>

lemma check_consistency_numeric_rows:
  "check_consistency
     \<lparr>col_data = [(''Age'', [CInt 30, CInt 150]),
                  (''Score'', [CFloat (FFin (1 / 2)), CFloat (FFin 2)])], nrows = 2\<rparr>
     [(''Below 100'', \<lambda>r. Inr (map_of r ''Age'' \<noteq> Some (CFloat (FFin 150))))]
   = Report [(''Below 100'',
              Failed \<lparr>count = 1, indices = [1],
                      rows = [[(''Age'', CFloat (FFin 150)), (''Score'', CFloat (FFin 2))]]\<rparr>)]"
  by code_simp

text \<open>
  Claim C1. Let the rules have distinct names (they are the keys of a dictionary),
  and let the predicate of one rule raise on some row of the dataset. Then
  \<open>check_consistency\<close> of \<open>backend.py\<close> returns a report in which that rule has the
  entry \<open>{error: msg, message: "Error checking rule: <name>"}\<close>, where \<open>msg\<close> is the
  message of an exception the predicate raised on a row, and every other rule has
  exactly the entry its own evaluation gives: for a rule that raises on no row, no
  entry when every row passes, and otherwise the count, the indices and the rows of
  the rows on which it returns \<open>False\<close>. \<open>check_consistency\<close> of \<open>dq.py\<close> returns no
  report: the call ends with an exception that a rule raised on a row.
\<close>

theorem check_consistency_isolates_errors:
  assumes "distinct (map fst crules)" and "(name, f) \<in> set crules"
    and "\<exists>r\<in>set (iterrows df). isl (f r)"
  shows "(\<exists>rs msg. check_consistency df crules = Report rs
      \<and> map_of rs name = Some (RuleError msg (''Error checking rule: '' @ name))
      \<and> (\<exists>r\<in>set (iterrows df). f r = Inl (Exception msg))
      \<and> (\<forall>(n, g)\<in>set crules. n \<noteq> name \<longrightarrow>
            map_of rs n = check_rule df n g
            \<and> ((\<forall>r\<in>set (iterrows df). \<not> isl (g r)) \<longrightarrow>
                 map_of rs n =
                   (if failing_rows df g = [] then None
                    else Some (Failed \<lparr>count = length (failing_rows df g),
                                        indices = failing_rows df g,
                                        rows = map (\<lambda>i. clean_row (row_series df i))
                                                 (failing_rows df g)\<rparr>)))))
    \<and> (\<exists>e. dq_check_consistency df crules = Inl e
          \<and> (\<exists>(n, g)\<in>set crules. \<exists>r\<in>set (iterrows df). g r = Inl e))"
proof
  from check_rule_raises [OF assms(3)] obtain msg
    where cr: "check_rule df name f = Some (RuleError msg (''Error checking rule: '' @ name))"
      and ex: "\<exists>r\<in>set (iterrows df). f r = Inl (Exception msg)"
    by blast
  from check_consistency_Report [OF assms(1,2) cr] obtain rs
    where rs: "check_consistency df crules = Report rs" by blast
  have "map_of rs name = Some (RuleError msg (''Error checking rule: '' @ name))"
    using check_consistency_map_of [OF assms(1,2) rs] cr by simp
  moreover have "map_of rs n = check_rule df n g" if "(n, g) \<in> set crules" for n g
    using check_consistency_map_of [OF assms(1) that rs] .
  ultimately show "\<exists>rs msg. check_consistency df crules = Report rs
      \<and> map_of rs name = Some (RuleError msg (''Error checking rule: '' @ name))
      \<and> (\<exists>r\<in>set (iterrows df). f r = Inl (Exception msg))
      \<and> (\<forall>(n, g)\<in>set crules. n \<noteq> name \<longrightarrow>
            map_of rs n = check_rule df n g
            \<and> ((\<forall>r\<in>set (iterrows df). \<not> isl (g r)) \<longrightarrow>
                 map_of rs n =
                   (if failing_rows df g = [] then None
                    else Some (Failed \<lparr>count = length (failing_rows df g),
                                        indices = failing_rows df g,
                                        rows = map (\<lambda>i. clean_row (row_series df i))
                                                 (failing_rows df g)\<rparr>))))"
    using rs ex check_rule_total by (intro exI [of _ rs] exI [of _ msg]) auto
  show "\<exists>e. dq_check_consistency df crules = Inl e
          \<and> (\<exists>(n, g)\<in>set crules. \<exists>r\<in>set (iterrows df). g r = Inl e)"
    unfolding dq_check_consistency_def by (rule dq_check_loop_raises [OF assms(2,3)])
qed

theorem check_consistency_isolates_errors_witness:
  "distinct (map fst [(''No strings'', \<lambda>r. case map_of r ''Age'' of
                            Some (CStr s) \<Rightarrow> Inl (Exception (''not a number: '' @ s))
                          | _ \<Rightarrow> Inr True),
                      (''Below 100'', \<lambda>r. Inr (map_of r ''Age'' \<noteq> Some (CInt 150)))])
   \<and> isl ((\<lambda>r. case map_of r ''Age'' of
                            Some (CStr s) \<Rightarrow> Inl (Exception (''not a number: '' @ s))
                          | _ \<Rightarrow> (Inr True :: exn + bool))
           (iterrows \<lparr>col_data = [(''Age'', [CInt 30, CInt 150, CStr ''x''])], nrows = 3\<rparr> ! 2))
   \<and> check_consistency \<lparr>col_data = [(''Age'', [CInt 30, CInt 150, CStr ''x''])], nrows = 3\<rparr>
        [(''No strings'', \<lambda>r. case map_of r ''Age'' of
                            Some (CStr s) \<Rightarrow> Inl (Exception (''not a number: '' @ s))
                          | _ \<Rightarrow> Inr True),
         (''Below 100'', \<lambda>r. Inr (map_of r ''Age'' \<noteq> Some (CInt 150)))]
     = Report [(''No strings'', RuleError ''not a number: x'' ''Error checking rule: No strings''),
               (''Below 100'', Failed \<lparr>count = 1, indices = [1],
                                        rows = [[(''Age'', CInt 150)]]\<rparr>)]
   \<and> dq_check_consistency \<lparr>col_data = [(''Age'', [CInt 30, CInt 150, CStr ''x''])], nrows = 3\<rparr>
        [(''No strings'', \<lambda>r. case map_of r ''Age'' of
                            Some (CStr s) \<Rightarrow> Inl (Exception (''not a number: '' @ s))
                          | _ \<Rightarrow> Inr True),
         (''Below 100'', \<lambda>r. Inr (map_of r ''Age'' \<noteq> Some (CInt 150)))]
     = Inl (Exception ''not a number: x'')"
proof -
  let ?df = "\<lparr>col_data = [(''Age'', [CInt 30, CInt 150, CStr ''x''])], nrows = 3\<rparr>"
  let ?f = "\<lambda>r. case map_of r ''Age'' of
                            Some (CStr s) \<Rightarrow> Inl (Exception (''not a number: '' @ s))
                          | _ \<Rightarrow> (Inr True :: exn + bool)"
  let ?g = "\<lambda>r::row. (Inr (map_of r ''Age'' \<noteq> Some (CInt 150)) :: exn + bool)"
  let ?rules = "[(''No strings'', ?f), (''Below 100'', ?g)]"
  have d: "distinct (map fst ?rules)" by simp
  have mem: "(''No strings'', ?f) \<in> set ?rules" by simp
  have r2: "isl (?f (iterrows ?df ! 2))" by code_simp
  have "iterrows ?df ! 2 \<in> set (iterrows ?df)"
    by (rule nth_mem) (simp add: length_iterrows)
  with r2 have ex: "\<exists>r\<in>set (iterrows ?df). isl (?f r)" by blast
  have ev: "check_consistency ?df ?rules
     = Report [(''No strings'', RuleError ''not a number: x'' ''Error checking rule: No strings''),
               (''Below 100'', Failed \<lparr>count = 1, indices = [1],
                                        rows = [[(''Age'', CInt 150)]]\<rparr>)]"
    by (rule check_consistency_example)
  have dq: "dq_check_consistency ?df ?rules = Inl (Exception ''not a number: x'')"
    by (rule dq_check_consistency_example)
  from check_consistency_isolates_errors [OF d mem ex] d r2 ev dq show ?thesis by simp
qed

text \<open>
  The rule reported as an error by \<open>backend.py\<close> ends the call in \<open>dq.py\<close>: nothing is
  reported for it, and the rule after it is not evaluated.
\<close>

theorem dq_check_consistency_raises:
  "dq_check_consistency \<lparr>col_data = [(''Age'', [CInt 30, CInt 150, CStr ''x''])], nrows = 3\<rparr>
        [(''No strings'', \<lambda>r. case map_of r ''Age'' of
                            Some (CStr s) \<Rightarrow> Inl (Exception (''not a number: '' @ s))
                          | _ \<Rightarrow> Inr True),
         (''Below 100'', \<lambda>r. Inr (map_of r ''Age'' \<noteq> Some (CInt 150)))]
     = Inl (Exception ''not a number: x'')
   \<and> check_consistency \<lparr>col_data = [(''Age'', [CInt 30, CInt 150, CStr ''x''])], nrows = 3\<rparr>
        [(''No strings'', \<lambda>r. case map_of r ''Age'' of
                            Some (CStr s) \<Rightarrow> Inl (Exception (''not a number: '' @ s))
                          | _ \<Rightarrow> Inr True),
         (''Below 100'', \<lambda>r. Inr (map_of r ''Age'' \<noteq> Some (CInt 150)))]
     = Report [(''No strings'', RuleError ''not a number: x'' ''Error checking rule: No strings''),
               (''Below 100'', Failed \<lparr>count = 1, indices = [1],
                                        rows = [[(''Age'', CInt 150)]]\<rparr>)]"
  by (intro conjI dq_check_consistency_example check_consistency_example)

lemma map_of_nth_cells:
  "map_of (map (\<lambda>(c, cs). (c, cs ! i)) xs) k = map_option (\<lambda>cs. cs ! i) (map_of xs k)"
  by (induction xs) auto

lemma map_of_row_at:
  "map_of (row_at df i) c = map_option (\<lambda>cs. cs ! i) (map_of (col_data df) c)"
  by (simp add: row_at_def map_of_nth_cells)

lemma valid_age_returns: "\<not> isl (valid_age parse r)"
  by (simp add: valid_age_def split: option.splits)

lemma upcast_object: "upcast DObject v = v"
  by (cases v) simp_all

lemma frame_dtype_object:
  assumes "(c, cs) \<in> set (col_data df)" and "col_dtype cs = DObject"
  shows "frame_dtype df = DObject"
proof -
  define ds where "ds = map (\<lambda>(c, cs). col_dtype cs) (col_data df)"
  have "DObject \<in> set ds"
    unfolding ds_def using assms by force
  then have "\<not> list_all (\<lambda>d. d = DInt) ds" and "\<not> list_all (\<lambda>d. d = DInt \<or> d = DFloat) ds"
    and "\<not> list_all (\<lambda>d. d = DBool) ds"
    by (auto simp: list_all_iff)
  then show ?thesis
    unfolding frame_dtype_def Let_def ds_def [symmetric] by simp
qed

lemma row_series_object: "frame_dtype df = DObject \<Longrightarrow> row_series df i = row_at df i"
  by (simp add: row_series_def upcast_object case_prod_unfold)

text \<open>
  Claim C8. For a well-formed dataset whose column \<open>Age\<close> is \<open>[30, 150, "x"]\<close>, and
  with \<open>"x"\<close> not readable as a number, the rule \<open>Valid Age\<close> of the default rules
  passes row 0 and fails rows 1 and 2: \<open>150 <= 120\<close> is false, and \<open>"x"\<close> is coerced to
  NaN, for which \<open>0 <= NaN\<close> is false. \<open>check_consistency\<close> with the default rules
  reports for \<open>Valid Age\<close> the count 2, the indices \<open>[1, 2]\<close> and these two rows.
\<close>

theorem valid_age_scenario:
  assumes wf: "wf_df df"
    and age: "map_of (col_data df) ''Age'' = Some [CInt 30, CInt 150, CStr ''x'']"
    and px: "parse ''x'' = None"
  shows "valid_age parse (row_at df 0) = Inr True
       \<and> valid_age parse (row_at df 1) = Inr False
       \<and> valid_age parse (row_at df 2) = Inr False
       \<and> \<not> float_le (FFin 150) (FFin 120)
       \<and> to_numeric parse (CStr ''x'') = FNaN
       \<and> \<not> float_le (FFin 0) FNaN
       \<and> (\<exists>rs fl. check_consistency df (consistency_rules parse) = Report rs
             \<and> map_of rs ''Valid Age'' = Some (Failed fl)
             \<and> count fl = 2 \<and> indices fl = [1, 2]
             \<and> rows fl = [clean_row (row_at df 1), clean_row (row_at df 2)])"
proof -
  from age have "(''Age'', [CInt 30, CInt 150, CStr ''x'']) \<in> set (col_data df)"
    by (rule map_of_SomeD)
  from wf_df_length [OF wf this] have n: "nrows df = 3" by simp
  have "col_dtype [CInt 30, CInt 150, CStr ''x''] = DObject"
    by (simp add: col_dtype_def)
  with \<open>(''Age'', [CInt 30, CInt 150, CStr ''x'']) \<in> set (col_data df)\<close>
  have "frame_dtype df = DObject" by (rule frame_dtype_object)
  then have rs: "row_series df i = row_at df i" for i by (rule row_series_object)
  have r0: "valid_age parse (row_at df 0) = Inr True"
    by (simp add: valid_age_def map_of_row_at age)
  have r1: "valid_age parse (row_at df (Suc 0)) = Inr False"
    by (simp add: valid_age_def map_of_row_at age)
  have r2: "valid_age parse (row_at df (Suc (Suc 0))) = Inr False"
    by (simp add: valid_age_def map_of_row_at age px)
  have up: "[0..<3] = [0, Suc 0, Suc (Suc 0)]"
    by (simp add: upt_conv_Cons eval_nat_numeral del: upt_Suc)
  have fr: "failing_rows df (valid_age parse) = [Suc 0, Suc (Suc 0)]"
    by (simp add: failing_rows_def n up rs r0 r1 r2)
  have cr: "check_rule df ''Valid Age'' (valid_age parse)
              = Some (Failed \<lparr>count = 2, indices = [Suc 0, Suc (Suc 0)],
                   rows = [clean_row (row_at df (Suc 0)), clean_row (row_at df (Suc (Suc 0)))]\<rparr>)"
    using check_rule_total [of df "valid_age parse" "''Valid Age''"]
    by (simp add: valid_age_returns fr rs)
  have d: "distinct (map fst (consistency_rules parse))"
    by (simp add: consistency_rules_def)
  have mem: "(''Valid Age'', valid_age parse) \<in> set (consistency_rules parse)"
    by (simp add: consistency_rules_def)
  from check_consistency_Report [OF d mem cr] obtain rs
    where rep: "check_consistency df (consistency_rules parse) = Report rs" by blast
  have "map_of rs ''Valid Age'' = Some (Failed \<lparr>count = 2, indices = [Suc 0, Suc (Suc 0)],
                   rows = [clean_row (row_at df (Suc 0)), clean_row (row_at df (Suc (Suc 0)))]\<rparr>)"
    using check_consistency_map_of [OF d mem rep] cr by simp
  with rep have "\<exists>rs fl. check_consistency df (consistency_rules parse) = Report rs
             \<and> map_of rs ''Valid Age'' = Some (Failed fl)
             \<and> count fl = 2 \<and> indices fl = [1, 2]
             \<and> rows fl = [clean_row (row_at df 1), clean_row (row_at df 2)]"
    by (simp add: eval_nat_numeral)
  moreover have "valid_age parse (row_at df 1) = Inr False" using r1 by simp
  moreover have "valid_age parse (row_at df 2) = Inr False" using r2 by (simp add: eval_nat_numeral)
  ultimately show ?thesis using r0 px by simp
qed

theorem valid_age_scenario_witness:
  "wf_df \<lparr>col_data = [(''Age'', [CInt 30, CInt 150, CStr ''x''])], nrows = 3\<rparr>
   \<and> map_of (col_data \<lparr>col_data = [(''Age'', [CInt 30, CInt 150, CStr ''x''])], nrows = 3\<rparr>) ''Age''
       = Some [CInt 30, CInt 150, CStr ''x'']
   \<and> (\<lambda>s. if s = ''150'' then Some (FFin 150) else None) ''x'' = None
   \<and> check_consistency \<lparr>col_data = [(''Age'', [CInt 30, CInt 150, CStr ''x''])], nrows = 3\<rparr>
        (consistency_rules (\<lambda>s. if s = ''150'' then Some (FFin 150) else None))
       = Report [(''Valid Age'',
                  Failed \<lparr>count = 2, indices = [1, 2],
                          rows = [[(''Age'', CInt 150)], [(''Age'', CStr ''x'')]]\<rparr>)]"
proof -
  let ?df = "\<lparr>col_data = [(''Age'', [CInt 30, CInt 150, CStr ''x''])], nrows = 3\<rparr>"
  let ?parse = "\<lambda>s. if s = ''150'' then Some (FFin 150) else None"
  have wf: "wf_df ?df" by (simp add: wf_df_def columns_def)
  have age: "map_of (col_data ?df) ''Age'' = Some [CInt 30, CInt 150, CStr ''x'']" by simp
  have px: "?parse ''x'' = None" by simp
  have ev: "check_consistency ?df (consistency_rules ?parse)
       = Report [(''Valid Age'',
                  Failed \<lparr>count = 2, indices = [1, 2],
                          rows = [[(''Age'', CInt 150)], [(''Age'', CStr ''x'')]]\<rparr>)]"
    by code_simp
  from valid_age_scenario [where df = ?df and parse = ?parse] wf age px ev show ?thesis by simp
qed

subsection \<open>Invalid inputs\<close>











subsection \<open>Data type mismatches\<close>

lemma tally_keys_prefix: "\<exists>rest. map fst (tally xs acc) = map fst acc @ rest"
proof (induction xs arbitrary: acc)
  case Nil
  show ?case by simp
next
  case (Cons x xs)
  let ?acc = "AList.update x (case map_of acc x of None \<Rightarrow> 1 | Some n \<Rightarrow> Suc n) acc"
  from Cons.IH [of ?acc] obtain rest where "map fst (tally xs ?acc) = map fst ?acc @ rest"
    by blast
  then show ?case by (auto simp: update_keys)
qed

lemma tally_distinct: "distinct (map fst acc) \<Longrightarrow> distinct (map fst (tally xs acc))"
  by (induction xs arbitrary: acc) (simp_all add: distinct_update)

lemma tally_map_of:
  "map_of (tally xs acc) t =
     (case map_of acc t of
        None \<Rightarrow> (if t \<in> set xs then Some (count_list xs t) else None)
      | Some n \<Rightarrow> Some (n + count_list xs t))"
proof (induction xs arbitrary: acc)
  case Nil
  show ?case by (simp split: option.splits)
next
  case (Cons x xs)
  show ?case
    by (simp add: Cons.IH update_conv' split: option.splits)
qed

lemma tally_set: "fst ` set (tally xs []) = set xs"
proof -
  have "fst ` set (tally xs []) = dom (map_of (tally xs []))"
    by (simp add: dom_map_of_conv_image_fst)
  also have "\<dots> = set xs"
    by (auto simp: dom_def tally_map_of)
  finally show ?thesis .
qed

lemma tally_entry:
  "(t, c) \<in> set (tally xs []) \<longleftrightarrow> t \<in> set xs \<and> c = count_list xs t"
proof -
  have d: "distinct (map fst (tally xs []))" by (rule tally_distinct) simp
  have "(t, c) \<in> set (tally xs []) \<longleftrightarrow> map_of (tally xs []) t = Some c"
    using d by simp
  then show ?thesis by (auto simp: tally_map_of)
qed

lemma length_tally: "length (tally xs []) = card (set xs)"
proof -
  have d: "distinct (map fst (tally xs []))" by (rule tally_distinct) simp
  have "length (tally xs []) = length (map fst (tally xs []))" by simp
  also have "\<dots> = card (set (map fst (tally xs [])))"
    using d by (simp only: distinct_card)
  also have "\<dots> = card (set xs)" by (simp add: tally_set)
  finally show ?thesis .
qed

text \<open>A key entered while the list is read stands after every key entered before it.\<close>

lemma tally_order:
  assumes "map fst (tally xs acc) = ks1 @ d # ks2" and "t \<in> set ks2"
    and "d \<notin> fst ` set acc" and "distinct (map fst acc)"
  shows "\<exists>pre post. xs = pre @ d # post \<and> t \<notin> set pre"
  using assms
proof (induction xs arbitrary: acc)
  case Nil
  then have "d \<in> set (map fst acc)" by simp
  with Nil.prems(3) show ?case by simp
next
  case (Cons x xs)
  let ?acc = "AList.update x (case map_of acc x of None \<Rightarrow> 1 | Some n \<Rightarrow> Suc n) acc"
  have keys: "map fst (tally xs ?acc) = ks1 @ d # ks2" using Cons.prems(1) by simp
  have dacc: "distinct (map fst ?acc)" using Cons.prems(4) by (rule distinct_update)
  have dall: "distinct (ks1 @ d # ks2)"
    using tally_distinct [OF dacc, of xs] keys by simp
  show ?case
  proof (cases "x = d")
    case True
    then have "x # xs = [] @ d # xs \<and> t \<notin> set []" by simp
    then show ?thesis by blast
  next
    case False
    with Cons.prems(3) have dn: "d \<notin> fst ` set ?acc" by (simp add: dom_update)
    from Cons.IH [OF keys Cons.prems(2) dn dacc] obtain pre post
      where xs: "xs = pre @ d # post" and t: "t \<notin> set pre" by blast
    have "t \<noteq> x"
    proof
      assume tx: "t = x"
      then have tin: "t \<in> set (map fst ?acc)" by (simp add: update_keys)
      from tally_keys_prefix [of xs ?acc] obtain rest
        where rest: "ks1 @ d # ks2 = map fst ?acc @ rest" using keys by auto
      from dn have "d \<notin> set (map fst ?acc)" by simp
      with rest have "d \<in> set rest"
        by (metis Un_iff in_set_conv_decomp set_append)
      then obtain r1 r2 where r: "rest = r1 @ d # r2" by (auto simp: in_set_conv_decomp)
      with rest have eq: "ks1 @ d # ks2 = (map fst ?acc @ r1) @ d # r2" by simp
      have "d \<notin> set ks1" "d \<notin> set ks2" using dall by auto
      moreover have "d \<notin> set (map fst ?acc @ r1)" "d \<notin> set r2"
        using dall unfolding eq by auto
      ultimately have "ks1 = map fst ?acc @ r1"
        using eq by (metis append_Cons_eq_iff)
      with tin have "t \<in> set ks1" by simp
      with Cons.prems(2) dall show False by auto
    qed
    with xs t have "x # xs = (x # pre) @ d # post \<and> t \<notin> set (x # pre)" by simp
    then show ?thesis by blast
  qed
qed

lemma hd_insort_key:
  "hd (insort_key f x ys) = (if ys = [] \<or> f x \<le> f (hd ys) then x else hd ys)"
  by (cases ys) simp_all

lemma sort_key_Nil_iff: "sort_key f xs = [] \<longleftrightarrow> xs = []"
  by (metis length_sort length_0_conv)

lemma hd_sort_key:
  assumes "xs \<noteq> []"
  shows "\<exists>ys zs. xs = ys @ hd (sort_key f xs) # zs
           \<and> (\<forall>y\<in>set ys. f (hd (sort_key f xs)) < f y)
           \<and> (\<forall>y\<in>set xs. f (hd (sort_key f xs)) \<le> f y)"
  using assms
proof (induction xs)
  case Nil
  then show ?case by simp
next
  case (Cons x xs)
  show ?case
  proof (cases "xs = []")
    case True
    then have "x # xs = [] @ hd (sort_key f (x # xs)) # []" by simp
    moreover have "\<forall>y\<in>set (x # xs). f (hd (sort_key f (x # xs))) \<le> f y"
      using True by simp
    ultimately show ?thesis by (metis empty_iff empty_set)
  next
    case False
    let ?h = "hd (sort_key f xs)"
    from Cons.IH [OF False] obtain ys zs where xs: "xs = ys @ ?h # zs"
      and before: "\<forall>y\<in>set ys. f ?h < f y" and all: "\<forall>y\<in>set xs. f ?h \<le> f y"
      by blast
    have ne: "sort_key f xs \<noteq> []" using False by (simp add: sort_key_Nil_iff)
    have hd: "hd (sort_key f (x # xs)) = (if f x \<le> f ?h then x else ?h)"
      using ne by (simp add: hd_insort_key)
    show ?thesis
    proof (cases "f x \<le> f ?h")
      case True
      with hd have h: "hd (sort_key f (x # xs)) = x" by simp
      have "x # xs = [] @ x # xs" by simp
      moreover have "\<forall>y\<in>set (x # xs). f x \<le> f y"
        using True all by auto
      ultimately show ?thesis unfolding h by (metis empty_iff empty_set)
    next
      case nle: False
      with hd have h: "hd (sort_key f (x # xs)) = ?h" by simp
      have "x # xs = (x # ys) @ ?h # zs" using xs by simp
      moreover have "\<forall>y\<in>set (x # ys). f ?h < f y" using before nle by auto
      moreover have "\<forall>y\<in>set (x # xs). f ?h \<le> f y" using all nle by auto
      ultimately show ?thesis unfolding h by blast
    qed
  qed
qed

lemma first_pos_le: "first_pos (pre @ d # post) d \<le> length pre"
  by (induction pre) (simp_all add: first_pos_def)

lemma first_pos_ge: "t \<notin> set pre \<Longrightarrow> length pre \<le> first_pos (pre @ rest) t"
  by (induction pre) (auto simp: first_pos_def)

lemma enumerate_filter_snd:
  "map snd (filter (\<lambda>(i, c). P c) (enumerate n cs)) = filter P cs"
  by (induction cs arbitrary: n) simp_all

lemma type_series_tags: "map snd (type_series cs) = tags cs"
proof -
  have "map snd (type_series cs)
        = map type_name (map snd (filter (\<lambda>(i, c). \<not> isnull c) (enumerate 0 cs)))"
    by (simp add: type_series_def case_prod_unfold comp_def)
  then show ?thesis by (simp add: enumerate_filter_snd tags_def)
qed

lemma enumerate_filter_fst:
  "map fst (filter (\<lambda>(i, c). P c) (enumerate n cs))
     = filter (\<lambda>i. P (cs ! (i - n))) [n..<n + length cs]"
proof (induction cs arbitrary: n)
  case Nil
  show ?case by simp
next
  case (Cons c cs)
  have up: "[n..<n + length (c # cs)] = n # [Suc n..<Suc n + length cs]"
    by (simp add: upt_conv_Cons del: upt_Suc)
  have "filter (\<lambda>i. P ((c # cs) ! (i - n))) [Suc n..<Suc n + length cs]
        = filter (\<lambda>i. P (cs ! (i - Suc n))) [Suc n..<Suc n + length cs]"
  proof (rule filter_cong [OF refl])
    fix i assume "i \<in> set [Suc n..<Suc n + length cs]"
    then have "i - n = Suc (i - Suc n)" by auto
    then show "P ((c # cs) ! (i - n)) = P (cs ! (i - Suc n))" by simp
  qed
  with Cons.IH [of "Suc n"] show ?case
    unfolding up by simp
qed

lemma type_series_rows:
  "map fst (filter (\<lambda>(i, t'). t' = t) (type_series cs)) = rows_of_type cs t"
proof -
  have "filter (\<lambda>(i, t'). t' = t) (type_series cs)
        = map (\<lambda>(i, c). (i, type_name c))
            (filter (\<lambda>(i, c). \<not> isnull c \<and> type_name c = t) (enumerate 0 cs))"
    unfolding type_series_def filter_map filter_filter
    by (rule arg_cong [where f = "map _"], rule filter_cong) (auto simp: comp_def)
  then have "map fst (filter (\<lambda>(i, t'). t' = t) (type_series cs))
        = map fst (filter (\<lambda>(i, c). \<not> isnull c \<and> type_name c = t) (enumerate 0 cs))"
    by (simp add: case_prod_unfold comp_def)
  also have "\<dots> = rows_of_type cs t"
    using enumerate_filter_fst [of "\<lambda>c. \<not> isnull c \<and> type_name c = t" 0 cs]
    by (simp add: rows_of_type_def)
  finally show ?thesis .
qed

lemma filter_type_empty:
  "filter (\<lambda>(i, t'). t' = t) ts = [] \<longleftrightarrow> t \<notin> snd ` set ts"
  by (auto simp: filter_empty_conv image_iff)

lemma mixed_loop_map_of:
  "map_of (mixed_loop d ts acc) t =
     (if t \<noteq> d \<and> t \<in> snd ` set ts
      then Some ((case map_of acc t of None \<Rightarrow> [] | Some is \<Rightarrow> is)
                 @ map fst (filter (\<lambda>(i, t'). t' = t) ts))
      else map_of acc t)"
proof (induction ts arbitrary: acc)
  case Nil
  show ?case by simp
next
  case (Cons p ts)
  obtain idx ty where p: "p = (idx, ty)" by (cases p)
  show ?case
  proof (cases "ty = d")
    case True
    then have step: "mixed_loop d (p # ts) acc = mixed_loop d ts acc" by (simp add: p)
    show ?thesis
    proof (cases "t = d")
      case True
      then show ?thesis unfolding step Cons.IH by simp
    next
      case False
      with \<open>ty = d\<close> have "filter (\<lambda>(i, t'). t' = t) (p # ts) = filter (\<lambda>(i, t'). t' = t) ts"
        and "t \<in> snd ` set (p # ts) \<longleftrightarrow> t \<in> snd ` set ts"
        by (auto simp: p)
      then show ?thesis unfolding step Cons.IH by simp
    qed
  next
    case False
    define old where "old = (case map_of acc ty of None \<Rightarrow> [] | Some is \<Rightarrow> is)"
    define acc' where "acc' = AList.update ty (old @ [idx]) acc"
    from False have step: "mixed_loop d (p # ts) acc = mixed_loop d ts acc'"
      by (simp add: p acc'_def old_def)
    have acc': "map_of acc' j = (if j = ty then Some (old @ [idx]) else map_of acc j)" for j
      by (simp add: acc'_def update_conv')
    show ?thesis
    proof (cases "t = ty")
      case True
      with False have td: "t \<noteq> d" by simp
      have fl: "map fst (filter (\<lambda>(i, t'). t' = t) (p # ts))
                = idx # map fst (filter (\<lambda>(i, t'). t' = t) ts)"
        using True by (simp add: p)
      have mem: "t \<in> snd ` set (p # ts)" using True by (simp add: p)
      show ?thesis
      proof (cases "t \<in> snd ` set ts")
        case True
        with td mem \<open>t = ty\<close> show ?thesis
          unfolding step Cons.IH fl by (simp add: acc' old_def)
      next
        case False
        then have "filter (\<lambda>(i, t'). t' = t) ts = []" by (simp add: filter_type_empty)
        with False td mem \<open>t = ty\<close> show ?thesis
          unfolding step Cons.IH fl by (simp add: acc' old_def)
      qed
    next
      case False
      then have "filter (\<lambda>(i, t'). t' = t) (p # ts) = filter (\<lambda>(i, t'). t' = t) ts"
        and "t \<in> snd ` set (p # ts) \<longleftrightarrow> t \<in> snd ` set ts"
        by (auto simp: p)
      with False show ?thesis unfolding step Cons.IH by (simp add: acc')
    qed
  qed
qed

lemma type_series_Nil_iff: "type_series cs = [] \<longleftrightarrow> tags cs = []"
  using type_series_tags [of cs] by (metis map_is_Nil_conv)

lemma set_type_series: "snd ` set (type_series cs) = set (tags cs)"
  using type_series_tags [of cs] by (metis set_map)

lemma length_value_counts: "length (value_counts xs) = card (set xs)"
  by (simp add: value_counts_def length_tally)

lemma profile_column_None_iff: "profile_column cs \<noteq> None \<longleftrightarrow> 2 \<le> card (set (tags cs))"
proof (cases "tags cs = []")
  case True
  then show ?thesis by (simp add: profile_column_def type_series_Nil_iff)
next
  case False
  then show ?thesis
    by (auto simp: profile_column_def Let_def type_series_Nil_iff type_series_tags
        length_value_counts)
qed

lemma profile_column_Some:
  assumes "profile_column cs = Some p"
  shows "tags cs \<noteq> []"
    and "dominant_type p = fst (hd (value_counts (tags cs)))"
    and "mixed_indices p = mixed_loop (dominant_type p) (type_series cs) []"
  using assms
  by (auto simp: profile_column_def Let_def type_series_Nil_iff type_series_tags
      split: if_splits)

text \<open>The first entry of \<open>value_counts\<close>: a value of highest count, and the first seen of these.\<close>

lemma value_counts_hd:
  assumes "xs \<noteq> []"
  defines "d \<equiv> fst (hd (value_counts xs))"
  shows "d \<in> set xs"
    and "count_list xs t \<le> count_list xs d"
    and "t \<in> set xs \<Longrightarrow> count_list xs t = count_list xs d \<Longrightarrow> first_pos xs d \<le> first_pos xs t"
proof -
  let ?f = "\<lambda>p::'a \<times> nat. - int (snd p)"
  let ?T = "tally xs []"
  have "length ?T = card (set xs)" by (rule length_tally)
  with assms(1) have ne: "?T \<noteq> []" by (auto simp: card_eq_0_iff)
  define h where "h = hd (sort_key ?f ?T)"
  from hd_sort_key [OF ne, of ?f] obtain ys zs where T: "?T = ys @ h # zs"
    and before: "\<forall>y\<in>set ys. ?f h < ?f y" and all: "\<forall>y\<in>set ?T. ?f h \<le> ?f y"
    unfolding h_def by blast
  have hd: "h = (d, snd h)" by (simp add: d_def h_def value_counts_def)
  have "h \<in> set ?T" using T by simp
  with hd have "(d, snd h) \<in> set ?T" by simp
  then have din: "d \<in> set xs" and c: "snd h = count_list xs d"
    by (simp_all add: tally_entry)
  show "d \<in> set xs" by (rule din)
  show le: "count_list xs t \<le> count_list xs d"
  proof (cases "t \<in> set xs")
    case True
    then have "(t, count_list xs t) \<in> set ?T" by (simp add: tally_entry)
    with all have "?f h \<le> ?f (t, count_list xs t)" by blast
    with c show ?thesis by simp
  next
    case False
    then show ?thesis by (simp add: count_list_0_iff [THEN iffD2])
  qed
  show "first_pos xs d \<le> first_pos xs t"
    if t: "t \<in> set xs" and eq: "count_list xs t = count_list xs d"
  proof (cases "t = d")
    case True
    then show ?thesis by simp
  next
    case False
    from t have tin: "(t, count_list xs t) \<in> set ?T" by (simp add: tally_entry)
    have "(t, count_list xs t) \<notin> set ys"
    proof
      assume "(t, count_list xs t) \<in> set ys"
      with before have "?f h < ?f (t, count_list xs t)" by blast
      with c eq show False by simp
    qed
    moreover have "(t, count_list xs t) \<noteq> h" using hd False by (metis fst_conv)
    ultimately have "(t, count_list xs t) \<in> set zs" using tin T by auto
    then have tz: "t \<in> set (map fst zs)" by force
    have keys: "map fst ?T = map fst ys @ d # map fst zs"
      using T hd by (metis fst_conv list.simps(9) map_append)
    from tally_order [OF keys tz] obtain pre post
      where xs: "xs = pre @ d # post" and tp: "t \<notin> set pre" by auto
    have "first_pos xs d \<le> length pre" unfolding xs by (rule first_pos_le)
    also have "\<dots> \<le> first_pos xs t" unfolding xs by (rule first_pos_ge [OF tp])
    finally show ?thesis .
  qed
qed

lemma mismatches_fold_map_of:
  assumes "distinct (map fst cols)"
  shows "map_of (fold (\<lambda>(col, cs) mismatches.
             case profile_column cs of None \<Rightarrow> mismatches
             | Some p \<Rightarrow> AList.update col p mismatches) cols acc) k
         = (case map_of cols k of None \<Rightarrow> map_of acc k
            | Some cs \<Rightarrow> (case profile_column cs of None \<Rightarrow> map_of acc k | Some p \<Rightarrow> Some p))"
  using assms
proof (induction cols arbitrary: acc)
  case Nil
  show ?case by simp
next
  case (Cons r cols)
  obtain c cs where r: "r = (c, cs)" by (cases r)
  define acc' where "acc' = (case profile_column cs of None \<Rightarrow> acc
                    | Some p \<Rightarrow> AList.update c p acc)"
  from Cons.prems have d: "distinct (map fst cols)" and nn: "c \<notin> fst ` set cols"
    by (simp_all add: r)
  have acc': "map_of acc' j = (if j = c then (case profile_column cs of None \<Rightarrow> map_of acc j
                                 | Some p \<Rightarrow> Some p) else map_of acc j)" for j
    by (simp add: acc'_def update_conv' split: option.splits)
  have none: "map_of cols c = None"
    using nn by (simp add: map_of_eq_None_iff)
  have "map_of (fold (\<lambda>(col, cs) mismatches.
             case profile_column cs of None \<Rightarrow> mismatches
             | Some p \<Rightarrow> AList.update col p mismatches) (r # cols) acc) k
      = map_of (fold (\<lambda>(col, cs) mismatches.
             case profile_column cs of None \<Rightarrow> mismatches
             | Some p \<Rightarrow> AList.update col p mismatches) cols acc') k"
    by (simp add: r acc'_def)
  also have "\<dots> = (case map_of cols k of None \<Rightarrow> map_of acc' k
            | Some cs \<Rightarrow> (case profile_column cs of None \<Rightarrow> map_of acc' k | Some p \<Rightarrow> Some p))"
    by (rule Cons.IH [OF d])
  also have "\<dots> = (case map_of (r # cols) k of None \<Rightarrow> map_of acc k
            | Some cs \<Rightarrow> (case profile_column cs of None \<Rightarrow> map_of acc k | Some p \<Rightarrow> Some p))"
    using none by (cases "k = c") (simp_all add: r acc' split: option.splits)
  finally show ?case .
qed

lemma detect_data_type_mismatches_map_of:
  assumes "distinct (columns df)" and "map_of (col_data df) col = Some cs"
  shows "map_of (detect_data_type_mismatches df) col = profile_column cs"
  using mismatches_fold_map_of [of "col_data df" "[]" col] assms
  by (simp add: detect_data_type_mismatches_def columns_def split: option.splits)

text \<open>
  Claim C6. In a dataset with distinct column names, \<open>detect_data_type_mismatches\<close>
  has an entry for a column if and only if the non-missing cells of the column have
  at least two distinct types (so a column of one type, or with all cells missing,
  has none). In an entry, \<open>dominant_type\<close> is a type of the column of highest count
  among the non-missing cells; of the types with that count it is the one first
  encountered; and \<open>mixed_indices\<close> maps every other type of the column to the row
  indices of its cells, and has no other key.
\<close>

theorem detect_data_type_mismatches_spec:
  assumes "distinct (columns df)" and "map_of (col_data df) col = Some cs"
  shows "(map_of (detect_data_type_mismatches df) col \<noteq> None \<longleftrightarrow> 2 \<le> card (set (tags cs)))
     \<and> (\<forall>p. map_of (detect_data_type_mismatches df) col = Some p \<longrightarrow>
          dominant_type p \<in> set (tags cs)
          \<and> (\<forall>t. count_list (tags cs) t \<le> count_list (tags cs) (dominant_type p))
          \<and> (\<forall>t\<in>set (tags cs).
                count_list (tags cs) t = count_list (tags cs) (dominant_type p) \<longrightarrow>
                first_pos (tags cs) (dominant_type p) \<le> first_pos (tags cs) t)
          \<and> (\<forall>t. map_of (mixed_indices p) t =
                (if t \<in> set (tags cs) \<and> t \<noteq> dominant_type p
                 then Some (rows_of_type cs t) else None)))"
proof (intro conjI allI impI)
  show "map_of (detect_data_type_mismatches df) col \<noteq> None \<longleftrightarrow> 2 \<le> card (set (tags cs))"
    unfolding detect_data_type_mismatches_map_of [OF assms] by (rule profile_column_None_iff)
next
  fix p assume "map_of (detect_data_type_mismatches df) col = Some p"
  then have p: "profile_column cs = Some p"
    by (simp add: detect_data_type_mismatches_map_of [OF assms])
  note pc = profile_column_Some [OF p]
  show "dominant_type p \<in> set (tags cs)"
    unfolding pc(2) by (rule value_counts_hd(1) [OF pc(1)])
  show "count_list (tags cs) t \<le> count_list (tags cs) (dominant_type p)" for t
    unfolding pc(2) by (rule value_counts_hd(2) [OF pc(1)])
  show "\<forall>t\<in>set (tags cs).
                count_list (tags cs) t = count_list (tags cs) (dominant_type p) \<longrightarrow>
                first_pos (tags cs) (dominant_type p) \<le> first_pos (tags cs) t"
    unfolding pc(2) using value_counts_hd(3) [OF pc(1)] by blast
  show "map_of (mixed_indices p) t =
                (if t \<in> set (tags cs) \<and> t \<noteq> dominant_type p
                 then Some (rows_of_type cs t) else None)" for t
    unfolding pc(3) mixed_loop_map_of
    by (auto simp: set_type_series type_series_rows)
qed

theorem detect_data_type_mismatches_spec_witness:
  "distinct (columns \<lparr>col_data = [(''Name'', [CStr ''a'', CFloat FNaN, CStr ''c'']),
                                 (''Salary'', [CInt 100, CStr ''bad'', CFloat (FFin (401 / 2))])],
                      nrows = 3\<rparr>)
   \<and> detect_data_type_mismatches
        \<lparr>col_data = [(''Name'', [CStr ''a'', CFloat FNaN, CStr ''c'']),
                     (''Salary'', [CInt 100, CStr ''bad'', CFloat (FFin (401 / 2))])],
         nrows = 3\<rparr>
     = [(''Salary'', \<lparr>dominant_type = ''int'',
                      type_counts = [(''int'', 1), (''str'', 1), (''float'', 1)],
                      mixed_indices = [(''str'', [1]), (''float'', [2])]\<rparr>)]"
proof -
  let ?df = "\<lparr>col_data = [(''Name'', [CStr ''a'', CFloat FNaN, CStr ''c'']),
                     (''Salary'', [CInt 100, CStr ''bad'', CFloat (FFin (401 / 2))])],
         nrows = 3\<rparr>"
  have d: "distinct (columns ?df)" by (simp add: columns_def)
  have c: "map_of (col_data ?df) ''Salary'' = Some [CInt 100, CStr ''bad'', CFloat (FFin (401 / 2))]"
    by simp
  have ev: "detect_data_type_mismatches ?df
     = [(''Salary'', \<lparr>dominant_type = ''int'',
                      type_counts = [(''int'', 1), (''str'', 1), (''float'', 1)],
                      mixed_indices = [(''str'', [1]), (''float'', [2])]\<rparr>)]"
    by code_simp
  from detect_data_type_mismatches_spec [OF d c] d ev show ?thesis by simp
qed


end
